theory Spec2Isabelle
  imports Main "HOL-Library.Word"
begin


section \<open>The mutation differ: data model\<close>

text \<open>
  The development follows \<^verbatim>\<open>differ/mutationDiffer.go\<close>. A Go \<^verbatim>\<open>error\<close> is
  observed only through \<^verbatim>\<open>err.Error()\<close>, so it is the message, with \<open>None\<close> for
  \<^verbatim>\<open>nil\<close>. A pointer that may be \<^verbatim>\<open>nil\<close> is an option. A Go map is a partial
  function; a byte slice is an optional byte list, since \<^verbatim>\<open>reflect.DeepEqual\<close> tells the
  \<^verbatim>\<open>nil\<close> slice from the empty one.
\<close>

type_synonym go_error = "string option"

datatype panic = NilPointerDereference | SliceBoundsOutOfRange | IndexOutOfRange

text \<open>
  Modelled from the spec: \<^verbatim>\<open>gocbcore.GetResult\<close> is declared by the client library, not by
  this repository. Section 6 of the specification gives its content as value bytes, flags
  integer, data-type tag and version token; the field names are the ones the comparison in
  \<^verbatim>\<open>areGetResultsTheSame\<close> reads.
\<close>

record gocbcore_GetResult =
  Value :: "8 word list option"
  Flags :: "32 word"
  Datatype :: "8 word"
  Cas :: "64 word"

text \<open>The repository's own \<^verbatim>\<open>GetResult\<close> (the lock is not data).\<close>

record GetResult =
  Key :: string
  Result :: "gocbcore_GetResult option"
  Error :: go_error

text \<open>\<^verbatim>\<open>&GetResult{}\<close>: the placeholder that \<^verbatim>\<open>NewBatch\<close> stores for every key.\<close>

definition GetResult_zero :: GetResult where
  "GetResult_zero = \<lparr>Key = [], Result = None, Error = None\<rparr>"

text \<open>The three maps that \<^verbatim>\<open>diff\<close> fills and that \<^verbatim>\<open>MutationDiffer\<close> accumulates.\<close>

record DiffMaps =
  missingFromSource :: "string \<rightharpoonup> gocbcore_GetResult option"
  missingFromTarget :: "string \<rightharpoonup> gocbcore_GetResult option"
  diff :: "string \<rightharpoonup> gocbcore_GetResult option list"

definition DiffMaps_empty :: DiffMaps where
  "DiffMaps_empty = \<lparr>missingFromSource = Map.empty, missingFromTarget = Map.empty, diff = Map.empty\<rparr>"

text \<open>
  The fields that \<^verbatim>\<open>DifferWorker\<close> and \<^verbatim>\<open>batch\<close> have in common; a \<^verbatim>\<open>DifferWorker\<close>
  has no other data (its buckets are the environment, its \<^verbatim>\<open>differ\<close> is passed along).
\<close>

record DifferWorker =
  keys :: "string list"
  sourceResults :: "string \<rightharpoonup> GetResult"
  targetResults :: "string \<rightharpoonup> GetResult"

section \<open>The comparator\<close>

definition KeyNotFoundErrMsg :: string where
  "KeyNotFoundErrMsg = ''key not found''"

definition isKeyNotFoundError :: "go_error \<Rightarrow> bool" where
  "isKeyNotFoundError err = (case err of None \<Rightarrow> False | Some msg \<Rightarrow> msg = KeyNotFoundErrMsg)"

definition areGetResultsTheSame ::
  "gocbcore_GetResult option \<Rightarrow> gocbcore_GetResult option \<Rightarrow> bool" where
  "areGetResultsTheSame result1 result2 =
     (case result1 of
        None \<Rightarrow> result2 = None
      | Some r1 \<Rightarrow>
          (case result2 of
             None \<Rightarrow> False
           | Some r2 \<Rightarrow> Value r1 = Value r2 \<and> Flags r1 = Flags r2 \<and>
                        Datatype r1 = Datatype r2 \<and> Cas r1 = Cas r2))"

text \<open>
  One iteration of the loop of \<^verbatim>\<open>DifferWorker.diff\<close>, for the entry \<open>(key, sourceResult)\<close>
  of \<^verbatim>\<open>dw.sourceResults\<close>. Reading \<^verbatim>\<open>targetResult.Key\<close> through the \<^verbatim>\<open>nil\<close> that a
  missing map entry gives is a panic.
\<close>

definition diff_iteration ::
  "DifferWorker \<Rightarrow> string \<Rightarrow> GetResult \<Rightarrow> DiffMaps \<Rightarrow> panic + DiffMaps" where
  "diff_iteration dw key sourceResult acc =
     (if Key sourceResult = [] then Inr acc
      else case targetResults dw key of
        None \<Rightarrow> Inl NilPointerDereference
      | Some targetResult \<Rightarrow>
          if Key targetResult = [] then Inr acc
          else if isKeyNotFoundError (Error sourceResult) \<and>
                  \<not> isKeyNotFoundError (Error targetResult)
          then Inr (acc\<lparr>missingFromSource := (missingFromSource acc)(key \<mapsto> Result targetResult)\<rparr>)
          else if \<not> isKeyNotFoundError (Error sourceResult) \<and>
                  isKeyNotFoundError (Error targetResult)
          then Inr (acc\<lparr>missingFromTarget := (missingFromTarget acc)(key \<mapsto> Result sourceResult)\<rparr>)
          else if \<not> areGetResultsTheSame (Result sourceResult) (Result targetResult)
          then Inr (acc\<lparr>diff := (diff acc)(key \<mapsto> [Result sourceResult, Result targetResult])\<rparr>)
          else Inr acc)"

text \<open>
  \<^verbatim>\<open>for key, sourceResult := range dw.sourceResults\<close>: Go visits every entry once, in an
  order it does not specify. The order is the list \<open>order\<close>; a key of the list that is no
  entry of the map is not visited.
\<close>

fun diff_range :: "DifferWorker \<Rightarrow> string list \<Rightarrow> DiffMaps \<Rightarrow> panic + DiffMaps" where
  "diff_range dw [] acc = Inr acc"
| "diff_range dw (key # rest) acc =
     (case sourceResults dw key of
        None \<Rightarrow> diff_range dw rest acc
      | Some sourceResult \<Rightarrow>
          (case diff_iteration dw key sourceResult acc of
             Inl p \<Rightarrow> Inl p
           | Inr acc' \<Rightarrow> diff_range dw rest acc'))"

text \<open>The local maps that \<^verbatim>\<open>diff\<close> hands to \<^verbatim>\<open>addDiff\<close>.\<close>

definition diff_local :: "DifferWorker \<Rightarrow> string list \<Rightarrow> panic + DiffMaps" where
  "diff_local dw order = diff_range dw order DiffMaps_empty"

text \<open>\<open>order\<close> is an order in which \<^verbatim>\<open>range\<close> may visit the map \<open>m\<close>.\<close>

definition range_order :: "('k \<rightharpoonup> 'v) \<Rightarrow> 'k list \<Rightarrow> bool" where
  "range_order m order = (distinct order \<and> set order = dom m)"

text \<open>
  The maps of one key after \<^verbatim>\<open>diff\<close>: what \<^verbatim>\<open>missingFromSource\<close>, \<^verbatim>\<open>missingFromTarget\<close>
  and \<^verbatim>\<open>diff\<close> hold for it.
\<close>

definition diff_at ::
  "DifferWorker \<Rightarrow> string list \<Rightarrow> string \<Rightarrow>
   panic + (gocbcore_GetResult option option \<times> gocbcore_GetResult option option \<times>
            gocbcore_GetResult option list option)" where
  "diff_at dw order k =
     (case diff_local dw order of
        Inl p \<Rightarrow> Inl p
      | Inr r \<Rightarrow> Inr (missingFromSource r k, missingFromTarget r k, diff r k))"

section \<open>The aggregate state\<close>

text \<open>
  \<^verbatim>\<open>MutationDiffer\<close>: the three maps, the error keys, the two \<^verbatim>\<open>uint32\<close> counters and the
  configuration that the workers read. Connection parameters, file names, the timeout and
  the lock are not data of the model.
\<close>

record MutationDiffer = DiffMaps +
  numberOfWorkers :: int
  batchSize :: int
  maxNumOfSendBatchRetry :: int
  keysWithError :: "string list"
  numKeysProcessed :: "32 word"
  numKeysWithErrors :: "32 word"

text \<open>\<^verbatim>\<open>NewMutationDiffer\<close>, for the fields of the model.\<close>

definition NewMutationDiffer :: "int \<Rightarrow> int \<Rightarrow> int \<Rightarrow> MutationDiffer" where
  "NewMutationDiffer workers bsize retries =
     \<lparr>missingFromSource = Map.empty, missingFromTarget = Map.empty, diff = Map.empty,
      numberOfWorkers = workers, batchSize = bsize, maxNumOfSendBatchRetry = retries,
      keysWithError = [], numKeysProcessed = 0, numKeysWithErrors = 0\<rparr>"

text \<open>\<^verbatim>\<open>addDiff\<close>: each of the three loops stores every entry of the local map.\<close>

definition addDiff :: "DiffMaps \<Rightarrow> MutationDiffer \<Rightarrow> MutationDiffer" where
  "addDiff l d =
     d\<lparr>missingFromSource := missingFromSource d ++ missingFromSource l,
       missingFromTarget := missingFromTarget d ++ missingFromTarget l,
       diff := diff d ++ diff l\<rparr>"

definition addKeysWithError :: "string list \<Rightarrow> MutationDiffer \<Rightarrow> MutationDiffer" where
  "addKeysWithError ks d =
     d\<lparr>keysWithError := keysWithError d @ ks,
       numKeysWithErrors := numKeysWithErrors d + word_of_nat (length ks)\<rparr>"

section \<open>A batch and its callbacks\<close>

text \<open>
  \<^verbatim>\<open>xs[startIndex:endIndex]\<close>: a slice expression panics unless
  \<open>0 \<le> startIndex \<le> endIndex \<le> len(xs)\<close>.
\<close>

definition go_slice :: "'a list \<Rightarrow> int \<Rightarrow> int \<Rightarrow> panic + 'a list" where
  "go_slice xs startIndex endIndex =
     (if 0 \<le> startIndex \<and> startIndex \<le> endIndex \<and> endIndex \<le> int (length xs)
      then Inr (take (nat (endIndex - startIndex)) (drop (nat startIndex) xs))
      else Inl SliceBoundsOutOfRange)"

text \<open>
  A \<^verbatim>\<open>batch\<close> has the keys and the two result maps, the counter of its
  \<^verbatim>\<open>sync.WaitGroup\<close> and the two \<^verbatim>\<open>uint32\<close> completion counters.
\<close>

record batch = DifferWorker +
  waitGroup :: int
  sourceResultCount :: "32 word"
  targetResultCount :: "32 word"

definition NewBatch :: "DifferWorker \<Rightarrow> int \<Rightarrow> int \<Rightarrow> panic + batch" where
  "NewBatch dw startIndex endIndex =
     (case go_slice (keys dw) startIndex endIndex of
        Inl p \<Rightarrow> Inl p
      | Inr ks \<Rightarrow>
          Inr \<lparr>keys = ks,
               sourceResults = fold (\<lambda>key m. m(key \<mapsto> GetResult_zero)) ks Map.empty,
               targetResults = fold (\<lambda>key m. m(key \<mapsto> GetResult_zero)) ks Map.empty,
               waitGroup = 0, sourceResultCount = 0, targetResultCount = 0\<rparr>)"

text \<open>
  The store client is the environment. It calls the callback that \<^verbatim>\<open>b.get(key, isSource)\<close>
  made for the key at position \<open>i\<close> of \<^verbatim>\<open>b.keys\<close> with a document and an error, and it may
  run several callbacks at once; the code provides for that with the atomic counters and
  the lock of each entry. A callback is run in two steps, each of them atomic:
  \<^item> \<open>Enter isSource i result err\<close>: the callback is called with \<open>(result, err)\<close> and runs
    up to and including \<^verbatim>\<open>atomic.AddUint32\<close>, which gives it \<^verbatim>\<open>newCount\<close>;
  \<^item> \<open>Leave isSource i\<close>: it runs on to its end: it writes \<^verbatim>\<open>Key\<close>, \<^verbatim>\<open>Result\<close> and
    \<^verbatim>\<open>Error\<close> of its entry under the entry's lock, and calls \<^verbatim>\<open>b.waitGroup.Done()\<close> if
    \<^verbatim>\<open>newCount\<close> is the number of keys.
  The callbacks that have entered and not left are kept with their \<^verbatim>\<open>newCount\<close>,
  \<^verbatim>\<open>result\<close> and \<^verbatim>\<open>err\<close>. A step that the client cannot make (no such key position, a
  callback called a second time while it runs, a callback leaving that has not entered)
  changes nothing.

  Modelled from the spec: \<^verbatim>\<open>utils.WaitForWaitGroup\<close> is not among the sources. \<^verbatim>\<open>send\<close>
  starts it as a goroutine on the wait group and on \<^verbatim>\<open>doneChan\<close>, and section 4.2 of the
  specification has \<^verbatim>\<open>send\<close> block until both sides' gates release or the timeout elapses:
  the goroutine waits for the wait group and then sends on \<^verbatim>\<open>doneChan\<close>. The third step,
  \<open>Signal\<close>, is no step of a callback: the wait of the goroutine has returned, it has sent
  on \<^verbatim>\<open>doneChan\<close>, and the \<^verbatim>\<open>select\<close> of \<^verbatim>\<open>send\<close> receives that. It changes nothing in
  the batch.
\<close>

datatype batch_step =
    Enter bool nat "gocbcore_GetResult option" go_error
  | Leave bool nat
  | Signal

type_synonym running = "bool \<times> nat \<rightharpoonup> 32 word \<times> gocbcore_GetResult option \<times> go_error"

fun getCallbackFunc :: "batch_step \<Rightarrow> batch \<times> running \<Rightarrow> batch \<times> running" where
  "getCallbackFunc (Enter isSource i result err) (b, run) =
     (if i < length (keys b) \<and> run (isSource, i) = None then
        if isSource then
          (b\<lparr>sourceResultCount := sourceResultCount b + 1\<rparr>,
           run((isSource, i) \<mapsto> (sourceResultCount b + 1, result, err)))
        else
          (b\<lparr>targetResultCount := targetResultCount b + 1\<rparr>,
           run((isSource, i) \<mapsto> (targetResultCount b + 1, result, err)))
      else (b, run))"
| "getCallbackFunc (Leave isSource i) (b, run) =
     (case run (isSource, i) of
        None \<Rightarrow> (b, run)
      | Some (newCount, result, err) \<Rightarrow>
          (let key = keys b ! i;
               resultInMap = \<lparr>Key = key, Result = result, Error = err\<rparr>;
               b1 = (if isSource then b\<lparr>sourceResults := (sourceResults b)(key \<mapsto> resultInMap)\<rparr>
                     else b\<lparr>targetResults := (targetResults b)(key \<mapsto> resultInMap)\<rparr>);
               b2 = (if newCount = word_of_nat (length (keys b))
                     then b1\<lparr>waitGroup := waitGroup b1 - 1\<rparr> else b1)
           in (b2, run((isSource, i) := None))))"
| "getCallbackFunc Signal (b, run) = (b, run)"

text \<open>
  The wait of \<^verbatim>\<open>batch.send\<close>. The list holds the steps that happen while the worker is
  at this batch, in their order. The \<^verbatim>\<open>select\<close> of \<^verbatim>\<open>send\<close> returns \<^verbatim>\<open>nil\<close> when it
  receives from \<^verbatim>\<open>doneChan\<close>: at a step \<open>Signal\<close> with the wait group at zero (with the
  wait group not at zero the goroutine still waits, and there is no such step). When the
  steps are used up first, the \<^verbatim>\<open>select\<close> receives from \<^verbatim>\<open>timer.C\<close> and \<^verbatim>\<open>send\<close> returns
  the timeout error; this can be so with the wait group at zero, when the timer fires
  before the signal is received.
\<close>

fun send_wait :: "batch_step list \<Rightarrow> batch \<times> running \<Rightarrow> go_error \<times> batch" where
  "send_wait [] (b, run) = (Some ''mutation differ batch timed out'', b)"
| "send_wait (step # steps) (b, run) =
     (if step = Signal \<and> waitGroup b = 0 then (None, b)
      else send_wait steps (getCallbackFunc step (b, run)))"

definition send :: "batch_step list \<Rightarrow> batch \<Rightarrow> go_error \<times> batch" where
  "send steps b = send_wait steps (b\<lparr>waitGroup := waitGroup b + 2\<rparr>, Map.empty)"

text \<open>
  The callbacks go on when \<^verbatim>\<open>send\<close> has returned \<^verbatim>\<open>nil\<close> (the results of the batch
  ``could still be updated when mergeResults is called''): the steps of the list that are
  left then happen before \<^verbatim>\<open>mergeResults\<close> reads the entries. So \<^verbatim>\<open>mergeResults\<close> reads
  the batch as it is after all the steps of the list.
\<close>

definition batch_at_merge :: "batch_step list \<Rightarrow> batch \<Rightarrow> batch" where
  "batch_at_merge steps b =
     fst (fold getCallbackFunc steps (b\<lparr>waitGroup := waitGroup b + 2\<rparr>, Map.empty))"


text \<open>The completion counter of a side, and the number of callbacks of a side in a list.\<close>

definition resultCount :: "bool \<Rightarrow> batch \<Rightarrow> 32 word" where
  "resultCount isSource b = (if isSource then sourceResultCount b else targetResultCount b)"




text \<open>
  The result map of a side (\<^verbatim>\<open>resultsMap\<close> in the callback), and an entry that a callback
  has written: it holds its key. The key positions of the callbacks of a side that are
  called in a list of steps.
\<close>

definition resultsMap :: "bool \<Rightarrow> batch \<Rightarrow> (string \<rightharpoonup> GetResult)" where
  "resultsMap isSource b = (if isSource then sourceResults b else targetResults b)"

definition populated :: "bool \<Rightarrow> batch \<Rightarrow> string \<Rightarrow> bool" where
  "populated isSource b key =
     (case resultsMap isSource b key of None \<Rightarrow> False | Some r \<Rightarrow> Key r = key)"




text \<open>\<^verbatim>\<open>mergeResults\<close>: every entry of the batch's maps is copied into the worker's maps.\<close>

definition mergeResults :: "batch \<Rightarrow> DifferWorker \<Rightarrow> DifferWorker" where
  "mergeResults b dw =
     dw\<lparr>sourceResults := sourceResults dw ++ sourceResults b,
        targetResults := targetResults dw ++ targetResults b\<rparr>"

section \<open>Sending a batch with retries\<close>

text \<open>
  Modelled from the spec: \<^verbatim>\<open>utils.ExponentialBackoffExecutor\<close> is not among the sources.
  Section 4.3 of the specification: the operation is repeated until it succeeds or
  \<open>maxAttempts\<close> attempts are used up, and then the final error is returned to the caller
  (section 8: an operation that always fails is run exactly \<open>maxAttempts\<close> times). The
  waits between the attempts change no state and are left out. \<open>op n\<close> is attempt number
  \<open>n\<close> of the operation; a panic of the operation is not caught.
\<close>

fun ExponentialBackoffExecutor ::
  "nat \<Rightarrow> (nat \<Rightarrow> 's \<Rightarrow> panic + go_error \<times> 's) \<Rightarrow> nat \<Rightarrow> go_error \<Rightarrow> 's \<Rightarrow> panic + go_error \<times> 's" where
  "ExponentialBackoffExecutor 0 op n lastErr s = Inr (lastErr, s)"
| "ExponentialBackoffExecutor (Suc attemptsLeft) op n lastErr s =
     (case op n s of
        Inl p \<Rightarrow> Inl p
      | Inr (None, s') \<Rightarrow> Inr (None, s')
      | Inr (Some err, s') \<Rightarrow> ExponentialBackoffExecutor attemptsLeft op (Suc n) (Some err) s')"

text \<open>
  The closure \<^verbatim>\<open>sendBatchFunc\<close> of \<^verbatim>\<open>sendBatchWithRetry\<close>; \<open>env n\<close> are the callback
  steps that happen during attempt \<open>n\<close>.
\<close>

definition sendBatchFunc ::
  "(nat \<Rightarrow> batch_step list) \<Rightarrow> int \<Rightarrow> int \<Rightarrow> nat \<Rightarrow> DifferWorker \<Rightarrow>
   panic + go_error \<times> DifferWorker" where
  "sendBatchFunc env startIndex endIndex n dw =
     (case NewBatch dw startIndex endIndex of
        Inl p \<Rightarrow> Inl p
      | Inr b \<Rightarrow>
          (case send (env n) b of
             (Some err, b') \<Rightarrow> Inr (Some err, dw)
           | (None, b') \<Rightarrow> Inr (None, mergeResults (batch_at_merge (env n) b) dw)))"

definition sendBatchWithRetry ::
  "(nat \<Rightarrow> batch_step list) \<Rightarrow> int \<Rightarrow> int \<Rightarrow> DifferWorker \<times> MutationDiffer \<Rightarrow>
   panic + DifferWorker \<times> MutationDiffer" where
  "sendBatchWithRetry env startIndex endIndex s =
     (case s of (dw, d) \<Rightarrow>
        (case ExponentialBackoffExecutor (nat (maxNumOfSendBatchRetry d))
                (sendBatchFunc env startIndex endIndex) 0 None dw of
           Inl p \<Rightarrow> Inl p
         | Inr (opErr, dw') \<Rightarrow>
             (case (if opErr \<noteq> None
                    then (case go_slice (keys dw') startIndex endIndex of
                            Inl p \<Rightarrow> Inl p
                          | Inr ks \<Rightarrow> Inr (addKeysWithError ks d))
                    else Inr d) of
                Inl p \<Rightarrow> Inl p
              | Inr d' \<Rightarrow>
                  Inr (dw', d'\<lparr>numKeysProcessed :=
                                 numKeysProcessed d' + word_of_int (endIndex - startIndex)\<rparr>))))"

section \<open>The batch loop of a worker\<close>

text \<open>
  One turn of the loop of \<^verbatim>\<open>DifferWorker.getResults\<close>, at the value \<open>index\<close>. The state
  \<open>s\<close> is what \<^verbatim>\<open>sendBatchWithRetry\<close> changes; \<open>bsize s\<close> reads \<^verbatim>\<open>dw.differ.batchSize\<close>
  and \<open>len s\<close> reads \<^verbatim>\<open>len(dw.keys)\<close>. The turn gives the next value of \<open>index\<close>, or
  \<open>None\<close> at a \<^verbatim>\<open>break\<close>; a panic of the call ends the loop. Go's \<^verbatim>\<open>int\<close> is taken
  without a bound: \<open>index + batchSize\<close> is formed for \<open>index = 0\<close>, or after a turn that found
  \<open>index + batchSize < len\<close>, so it stays below twice a slice length.
\<close>

definition getResults_iteration ::
  "(int \<Rightarrow> int \<Rightarrow> 's \<Rightarrow> panic + 's) \<Rightarrow> ('s \<Rightarrow> int) \<Rightarrow> ('s \<Rightarrow> int) \<Rightarrow> int \<Rightarrow> 's \<Rightarrow>
   panic + int option \<times> 's" where
  "getResults_iteration sendBatch bsize len index s =
     (if index \<ge> len s then Inr (None, s)
      else if index + bsize s < len s then
        (case sendBatch index (index + bsize s) s of
           Inl p \<Rightarrow> Inl p
         | Inr s' \<Rightarrow> Inr (Some (index + bsize s), s'))
      else
        (case sendBatch index (len s) s of
           Inl p \<Rightarrow> Inl p
         | Inr s' \<Rightarrow> Inr (None, s')))"

text \<open>
  The loop. With a batch size of zero it does not end: the result is then \<open>None\<close>.
\<close>

partial_function (option) getResults_loop ::
  "(int \<Rightarrow> int \<Rightarrow> 's \<Rightarrow> panic + 's) \<Rightarrow> ('s \<Rightarrow> int) \<Rightarrow> ('s \<Rightarrow> int) \<Rightarrow> int \<Rightarrow> 's \<Rightarrow>
   (panic + 's) option" where
  "getResults_loop sendBatch bsize len index s =
     (case getResults_iteration sendBatch bsize len index s of
        Inl p \<Rightarrow> Some (Inl p)
      | Inr (None, s') \<Rightarrow> Some (Inr s')
      | Inr (Some index', s') \<Rightarrow> getResults_loop sendBatch bsize len index' s')"

text \<open>
  In place of \<^verbatim>\<open>sendBatchWithRetry\<close>: the call only records its two arguments, so that
  the loop returns the list of the batches it forms.
\<close>

definition record_batch :: "int \<Rightarrow> int \<Rightarrow> (int \<times> int) list \<Rightarrow> panic + (int \<times> int) list" where
  "record_batch startIndex endIndex batches = Inr (batches @ [(startIndex, endIndex)])"

text \<open>
  The batches the loop forms for \<open>L\<close> keys and batch size \<open>B\<close>: none when the loop does
  not end.
\<close>

definition getResults_batches :: "int \<Rightarrow> int \<Rightarrow> (panic + (int \<times> int) list) option" where
  "getResults_batches B L = getResults_loop record_batch (\<lambda>_. B) (\<lambda>_. L) 0 []"

text \<open>
  The splitting of claim C9, in its own words and not from the code: from index \<open>i\<close> on,
  batch \<open>j\<close> covers the indices from \<open>i + j B\<close> up to \<open>i + j B + B\<close> or \<open>L\<close>, the smaller of
  the two, for every \<open>j\<close> below the quotient of \<open>L - i\<close> by \<open>B\<close> rounded up.
\<close>

definition consecutive_batches :: "int \<Rightarrow> int \<Rightarrow> int \<Rightarrow> (int \<times> int) list" where
  "consecutive_batches B L i =
     map (\<lambda>j. (i + int j * B, min (i + int j * B + B) L)) [0..<nat ((L - i + B - 1) div B)]"

section \<open>A worker\<close>

definition NewDifferWorker :: "string list \<Rightarrow> DifferWorker" where
  "NewDifferWorker ks = \<lparr>keys = ks, sourceResults = Map.empty, targetResults = Map.empty\<rparr>"

text \<open>
  The environment of a worker gives, for the batch that starts at an index and for each
  attempt to send it, the steps that happen during the attempt.
\<close>

type_synonym worker_env = "int \<Rightarrow> nat \<Rightarrow> batch_step list"

definition getResults ::
  "worker_env \<Rightarrow> DifferWorker \<times> MutationDiffer \<Rightarrow> (panic + DifferWorker \<times> MutationDiffer) option" where
  "getResults env s =
     getResults_loop (\<lambda>startIndex endIndex. sendBatchWithRetry (env startIndex) startIndex endIndex)
       (\<lambda>(dw, d). batchSize d) (\<lambda>(dw, d). int (length (keys dw))) 0 s"

text \<open>
  \<^verbatim>\<open>DifferWorker.diff\<close> with \<^verbatim>\<open>addDiff\<close>. The entries of \<^verbatim>\<open>dw.sourceResults\<close> come from
  batches of \<^verbatim>\<open>dw.keys\<close>, and what the loop leaves in the maps does not depend on the order
  of the visits (\<open>diff_local_order\<close> below): the keys are visited in the order of
  \<^verbatim>\<open>dw.keys\<close>.
\<close>

definition DifferWorker_diff ::
  "DifferWorker \<times> MutationDiffer \<Rightarrow> panic + DifferWorker \<times> MutationDiffer" where
  "DifferWorker_diff s =
     (case s of (dw, d) \<Rightarrow>
        (case diff_local dw (remdups (keys dw)) of
           Inl p \<Rightarrow> Inl p
         | Inr l \<Rightarrow> Inr (dw, addDiff l d)))"

text \<open>\<^verbatim>\<open>DifferWorker.run\<close>, run on its own.\<close>

definition DifferWorker_run ::
  "worker_env \<Rightarrow> DifferWorker \<times> MutationDiffer \<Rightarrow> (panic + DifferWorker \<times> MutationDiffer) option" where
  "DifferWorker_run env s =
     (case getResults env s of
        None \<Rightarrow> None
      | Some (Inl p) \<Rightarrow> Some (Inl p)
      | Some (Inr s') \<Rightarrow> Some (DifferWorker_diff s'))"

section \<open>The workers of a run\<close>

text \<open>
  The workers are goroutines. They share the \<^verbatim>\<open>MutationDiffer\<close> only: they read its
  configuration, and they change it in \<^verbatim>\<open>addKeysWithError\<close> and \<^verbatim>\<open>addDiff\<close> under its
  lock and in the atomic additions to the counters. A run is an interleaving of steps of
  the workers; a step of a worker is one turn of the loop of \<^verbatim>\<open>getResults\<close> or the call
  of \<^verbatim>\<open>diff\<close>. Where a worker stands:
\<close>

datatype pc = GetResults int | Diff | Finished

definition worker_step ::
  "worker_env \<Rightarrow> pc \<times> DifferWorker \<times> MutationDiffer \<Rightarrow> panic + pc \<times> DifferWorker \<times> MutationDiffer" where
  "worker_step env s =
     (case s of (at, dw, d) \<Rightarrow>
        (case at of
           GetResults index \<Rightarrow>
             (case getResults_iteration
                     (\<lambda>startIndex endIndex. sendBatchWithRetry (env startIndex) startIndex endIndex)
                     (\<lambda>(dw, d). batchSize d) (\<lambda>(dw, d). int (length (keys dw))) index (dw, d) of
                Inl p \<Rightarrow> Inl p
              | Inr (None, (dw', d')) \<Rightarrow> Inr (Diff, dw', d')
              | Inr (Some index', (dw', d')) \<Rightarrow> Inr (GetResults index', dw', d'))
         | Diff \<Rightarrow>
             (case DifferWorker_diff (dw, d) of
                Inl p \<Rightarrow> Inl p
              | Inr (dw', d') \<Rightarrow> Inr (Finished, dw', d'))
         | Finished \<Rightarrow> Inr (Finished, dw, d)))"

text \<open>
  The schedule names the worker that makes the next step. A panic of a worker ends the
  program.
\<close>

fun run_workers ::
  "(nat \<Rightarrow> worker_env) \<Rightarrow> nat list \<Rightarrow> (pc \<times> DifferWorker) list \<times> MutationDiffer \<Rightarrow>
   panic + (pc \<times> DifferWorker) list \<times> MutationDiffer" where
  "run_workers env [] s = Inr s"
| "run_workers env (w # schedule) (ws, d) =
     (if w < length ws then
        (case worker_step (env w) (fst (ws ! w), snd (ws ! w), d) of
           Inl p \<Rightarrow> Inl p
         | Inr (at, dw, d') \<Rightarrow> run_workers env schedule (ws[w := (at, dw)], d'))
      else run_workers env schedule (ws, d))"

text \<open>
  The loop of \<^verbatim>\<open>Run\<close> that makes the workers, over the worker numbers \<open>is\<close>; reading
  \<^verbatim>\<open>loadDistribution[i]\<close> past the end is a panic.
\<close>

fun launch :: "string list \<Rightarrow> (int \<times> int) list \<Rightarrow> nat list \<Rightarrow> panic + DifferWorker list" where
  "launch diffKeys loadDistribution [] = Inr []"
| "launch diffKeys loadDistribution (i # is) =
     (if i < length loadDistribution then
        (case loadDistribution ! i of
           (lowIndex, highIndex) \<Rightarrow>
             if lowIndex = highIndex then launch diffKeys loadDistribution is
             else
               (case go_slice diffKeys lowIndex highIndex of
                  Inl p \<Rightarrow> Inl p
                | Inr ks \<Rightarrow>
                    (case launch diffKeys loadDistribution is of
                       Inl p \<Rightarrow> Inl p
                     | Inr dws \<Rightarrow> Inr (NewDifferWorker ks # dws))))
      else Inl IndexOutOfRange)"

text \<open>
  \<^verbatim>\<open>Run\<close>, from the making of the workers to the return of \<^verbatim>\<open>waitGroup.Wait()\<close>, for the
  keys that \<^verbatim>\<open>loadDiffKeys\<close> read and the distribution that \<^verbatim>\<open>utils.BalanceLoad\<close>
  returned. The result is \<open>None\<close> when the schedule ends before every worker has finished:
  the wait has not returned then.
\<close>

definition Run_workers ::
  "(nat \<Rightarrow> worker_env) \<Rightarrow> nat list \<Rightarrow> string list \<Rightarrow> (int \<times> int) list \<Rightarrow> MutationDiffer \<Rightarrow>
   (panic + (pc \<times> DifferWorker) list \<times> MutationDiffer) option" where
  "Run_workers env schedule diffKeys loadDistribution d =
     (case launch diffKeys loadDistribution [0..<nat (numberOfWorkers d)] of
        Inl p \<Rightarrow> Some (Inl p)
      | Inr dws \<Rightarrow>
          (case run_workers env schedule (map (\<lambda>dw. (GetResults 0, dw)) dws, d) of
             Inl p \<Rightarrow> Some (Inl p)
           | Inr (ws, d') \<Rightarrow>
               if list_all (\<lambda>w. fst w = Finished) ws then Some (Inr (ws, d')) else None))"

text \<open>
  Modelled from the spec: \<^verbatim>\<open>utils.BalanceLoad\<close> is not among the sources. Sections 4.5 and
  8 of the specification: the workers get contiguous index ranges, one for each worker, and
  the ranges put one after the other are the whole key list, with no overlap and no
  omission. \<open>load_ranges lo N dist\<close>: the ranges of \<open>dist\<close> lead from \<open>lo\<close> to \<open>N\<close>.
\<close>

fun load_ranges :: "int \<Rightarrow> int \<Rightarrow> (int \<times> int) list \<Rightarrow> bool" where
  "load_ranges lo N [] = (lo = N)"
| "load_ranges lo N ((lowIndex, highIndex) # rest) =
     (lowIndex = lo \<and> lowIndex \<le> highIndex \<and> load_ranges highIndex N rest)"

definition BalanceLoad_contract :: "int \<Rightarrow> int \<Rightarrow> (int \<times> int) list \<Rightarrow> bool" where
  "BalanceLoad_contract numOfWorkers numOfItems dist =
     (int (length dist) = numOfWorkers \<and> load_ranges 0 numOfItems dist)"

section \<open>What a batch leaves in the aggregate state\<close>

text \<open>
  The change that \<^verbatim>\<open>sendBatchWithRetry\<close> makes to the \<^verbatim>\<open>MutationDiffer\<close> for a batch of
  \<open>n\<close> keys of which the keys \<open>errs\<close> are recorded as keys with error.
\<close>

definition batch_accounted :: "string list \<Rightarrow> nat \<Rightarrow> MutationDiffer \<Rightarrow> MutationDiffer" where
  "batch_accounted errs n d =
     d\<lparr>keysWithError := keysWithError d @ errs,
       numKeysWithErrors := numKeysWithErrors d + word_of_nat (length errs),
       numKeysProcessed := numKeysProcessed d + word_of_nat n\<rparr>"

section \<open>Invariants of the workers\<close>

text \<open>
  How many of its keys a worker has dealt with, and which: the keys before \<open>index\<close> while
  it is in \<^verbatim>\<open>getResults\<close>, all its keys afterwards.
\<close>

definition progress_of :: "pc \<times> DifferWorker \<Rightarrow> nat" where
  "progress_of w =
     (case fst w of GetResults index \<Rightarrow> nat index | Diff \<Rightarrow> length (keys (snd w))
      | Finished \<Rightarrow> length (keys (snd w)))"

definition covered :: "pc \<times> DifferWorker \<Rightarrow> string set" where
  "covered w = set (take (progress_of w) (keys (snd w)))"

text \<open>
  What holds of a worker between its steps: the two result maps have the same keys, all
  among the keys dealt with, and \<open>index\<close> is within the key slice.
\<close>

definition worker_inv :: "pc \<times> DifferWorker \<Rightarrow> bool" where
  "worker_inv w =
     (dom (sourceResults (snd w)) = dom (targetResults (snd w)) \<and>
      dom (sourceResults (snd w)) \<subseteq> covered w \<and>
      (case fst w of
         GetResults index \<Rightarrow> 0 \<le> index \<and> index \<le> int (length (keys (snd w)))
       | Diff \<Rightarrow> True
       | Finished \<Rightarrow> True))"

text \<open>The number of steps that a worker has still to make, at most.\<close>

definition steps_left :: "pc \<times> DifferWorker \<Rightarrow> nat" where
  "steps_left w =
     (case fst w of
        GetResults index \<Rightarrow> nat (int (length (keys (snd w))) - index) + 2
      | Diff \<Rightarrow> 1
      | Finished \<Rightarrow> 0)"

text \<open>
  What holds between the steps of a run that started with \<open>p\<close> keys counted and with the
  workers' key slices \<open>kss\<close>: every worker's invariant, the key slices and the batch size
  unchanged, and \<^verbatim>\<open>numKeysProcessed\<close> the count of the keys dealt with so far.
\<close>

definition counted_inv ::
  "string list list \<Rightarrow> int \<Rightarrow> 32 word \<Rightarrow> (pc \<times> DifferWorker) list \<times> MutationDiffer \<Rightarrow> bool" where
  "counted_inv kss B p s =
     (case s of (ws, d) \<Rightarrow>
        list_all worker_inv ws \<and> map (\<lambda>w. keys (snd w)) ws = kss \<and> batchSize d = B \<and>
        numKeysProcessed d = p + word_of_nat (sum_list (map progress_of ws)))"

text \<open>
  What holds between the steps of a run of a candidate key \<open>k\<close> of worker number \<open>w0\<close>,
  when no other candidate key is equal to it: the key is once among the keys with error if
  its batch has been dealt with and the worker has no results for it, and not at all
  otherwise; the three maps hold nothing for the key before the worker has finished, and
  what its \<^verbatim>\<open>diff\<close> found for the key afterwards.
\<close>

definition key_inv :: "string \<Rightarrow> nat \<Rightarrow> (pc \<times> DifferWorker) list \<times> MutationDiffer \<Rightarrow> bool" where
  "key_inv k w0 s =
     (case s of (ws, d) \<Rightarrow>
        0 < maxNumOfSendBatchRetry d \<and>
        count_list (keysWithError d) k =
          (if k \<in> covered (ws ! w0) \<and> k \<notin> dom (sourceResults (snd (ws ! w0))) then 1 else 0) \<and>
        (if fst (ws ! w0) = Finished
         then diff_at (snd (ws ! w0)) (remdups (keys (snd (ws ! w0)))) k =
                Inr (missingFromSource d k, missingFromTarget d k, diff d k)
         else missingFromSource d k = None \<and> missingFromTarget d k = None \<and> diff d k = None))"

section \<open>Where a key ends up\<close>

text \<open>
  In how many places a key is recorded: its occurrences in \<^verbatim>\<open>keysWithError\<close>, and one for
  each of the three maps that holds it.
\<close>

definition recorded :: "MutationDiffer \<Rightarrow> string \<Rightarrow> nat" where
  "recorded d k =
     count_list (keysWithError d) k +
     (if k \<in> dom (missingFromSource d) then 1 else 0) +
     (if k \<in> dom (missingFromTarget d) then 1 else 0) +
     (if k \<in> dom (diff d) then 1 else 0)"

text \<open>
  A worker holds two completed results for the key and \<^verbatim>\<open>diff\<close> finds them to match:
  both not found or neither, and the documents the same.
\<close>

definition matched :: "(pc \<times> DifferWorker) list \<Rightarrow> string \<Rightarrow> bool" where
  "matched ws k =
     list_ex (\<lambda>w. case (sourceResults (snd w) k, targetResults (snd w) k) of
                     (Some sr, Some tr) \<Rightarrow>
                       Key sr \<noteq> [] \<and> Key tr \<noteq> [] \<and>
                       isKeyNotFoundError (Error sr) = isKeyNotFoundError (Error tr) \<and>
                       areGetResultsTheSame (Result sr) (Result tr)
                   | _ \<Rightarrow> False) ws"

text \<open>
  A worker holds two results for the key of which one is not completed (its \<^verbatim>\<open>Key\<close> is
  empty), so that \<^verbatim>\<open>diff\<close> skips the key.
\<close>

definition skipped :: "(pc \<times> DifferWorker) list \<Rightarrow> string \<Rightarrow> bool" where
  "skipped ws k =
     list_ex (\<lambda>w. case (sourceResults (snd w) k, targetResults (snd w) k) of
                     (Some sr, Some tr) \<Rightarrow> Key sr = [] \<or> Key tr = []
                   | _ \<Rightarrow> False) ws"

text \<open>
  Where the key is after a run in which all workers have finished: the number of places
  that record it, whether it was compared and matched, whether it was skipped.
\<close>

definition key_outcome ::
  "(nat \<Rightarrow> worker_env) \<Rightarrow> nat list \<Rightarrow> string list \<Rightarrow> (int \<times> int) list \<Rightarrow> MutationDiffer \<Rightarrow>
   string \<Rightarrow> (nat \<times> bool \<times> bool) option" where
  "key_outcome env schedule diffKeys loadDistribution d k =
     (case Run_workers env schedule diffKeys loadDistribution d of
        Some (Inr (ws, d')) \<Rightarrow> Some (recorded d' k, matched ws k, skipped ws k)
      | _ \<Rightarrow> None)"

section \<open>Writing the output\<close>

text \<open>
  The file system is the environment: for each of the three artifacts it says with which
  error, if any, writing it ends (\<^verbatim>\<open>json.Marshal\<close>, \<^verbatim>\<open>os.OpenFile\<close> or \<^verbatim>\<open>Write\<close>
  failing). The state records the artifacts whose write was attempted, in order, and the
  content of those that were written.
\<close>

datatype artifact = DiffKeysFile | ErrorKeysFile | DiffDetailsFile

datatype payload = KeyList "string list" | DiffDetails DiffMaps

record filesystem =
  attempts :: "artifact list"
  files :: "artifact \<rightharpoonup> payload"

definition write_file ::
  "(artifact \<Rightarrow> go_error) \<Rightarrow> artifact \<Rightarrow> payload \<Rightarrow> filesystem \<Rightarrow> go_error \<times> filesystem" where
  "write_file env a content fs =
     (env a,
      fs\<lparr>attempts := attempts fs @ [a],
         files := (if env a = None then (files fs)(a \<mapsto> content) else files fs)\<rparr>)"

text \<open>
  \<^verbatim>\<open>for key, _ := range m { diffKeys[index] = key; index++ }\<close>, with the keys of \<open>m\<close> in
  the order \<^verbatim>\<open>range\<close> visits them.
\<close>

fun fill_keys :: "string list \<Rightarrow> string list \<times> nat \<Rightarrow> panic + string list \<times> nat" where
  "fill_keys [] (diffKeys, index) = Inr (diffKeys, index)"
| "fill_keys (key # rest) (diffKeys, index) =
     (if index < length diffKeys then fill_keys rest (diffKeys[index := key], index + 1)
      else Inl IndexOutOfRange)"

text \<open>
  The array \<^verbatim>\<open>diffKeys\<close> of \<^verbatim>\<open>writeKeysWithDiff\<close>. The three lists are the orders in
  which \<^verbatim>\<open>range\<close> visits \<^verbatim>\<open>d.missingFromSource\<close>, \<^verbatim>\<open>d.missingFromTarget\<close> and
  \<^verbatim>\<open>d.diff\<close>; their lengths are the \<^verbatim>\<open>len\<close> of the maps.
\<close>

definition diffKeys_array ::
  "string list \<times> string list \<times> string list \<Rightarrow> panic + string list" where
  "diffKeys_array orders =
     (case orders of (o1, o2, o3) \<Rightarrow>
        (let numberOfDiffKeys = length o1 + length o2 + length o3;
             diffKeys = replicate numberOfDiffKeys []
         in case fill_keys o1 (diffKeys, 0) of
              Inl p \<Rightarrow> Inl p
            | Inr s1 \<Rightarrow>
                (case fill_keys o2 s1 of
                   Inl p \<Rightarrow> Inl p
                 | Inr s2 \<Rightarrow>
                     (case fill_keys o3 s2 of
                        Inl p \<Rightarrow> Inl p
                      | Inr s3 \<Rightarrow> Inr (fst s3)))))"

definition writeKeysWithDiff ::
  "(artifact \<Rightarrow> go_error) \<Rightarrow> string list \<times> string list \<times> string list \<Rightarrow>
   filesystem \<Rightarrow> panic + go_error \<times> filesystem" where
  "writeKeysWithDiff env orders fs =
     (case diffKeys_array orders of
        Inl p \<Rightarrow> Inl p
      | Inr diffKeys \<Rightarrow> Inr (write_file env DiffKeysFile (KeyList diffKeys) fs))"

definition writeKeysWithError ::
  "(artifact \<Rightarrow> go_error) \<Rightarrow> MutationDiffer \<Rightarrow> filesystem \<Rightarrow> go_error \<times> filesystem" where
  "writeKeysWithError env d fs = write_file env ErrorKeysFile (KeyList (keysWithError d)) fs"

definition writeDiffDetails ::
  "(artifact \<Rightarrow> go_error) \<Rightarrow> MutationDiffer \<Rightarrow> filesystem \<Rightarrow> go_error \<times> filesystem" where
  "writeDiffDetails env d fs =
     write_file env DiffDetailsFile
       (DiffDetails \<lparr>missingFromSource = missingFromSource d,
                     missingFromTarget = missingFromTarget d, diff = diff d\<rparr>) fs"

text \<open>\<^verbatim>\<open>writeDiff\<close>: the error it returns and the file system it leaves.\<close>

definition writeDiff ::
  "(artifact \<Rightarrow> go_error) \<Rightarrow> string list \<times> string list \<times> string list \<Rightarrow>
   MutationDiffer \<Rightarrow> filesystem \<Rightarrow> panic + go_error \<times> filesystem" where
  "writeDiff env orders d fs =
     (case writeKeysWithDiff env orders fs of
        Inl p \<Rightarrow> Inl p
      | Inr (err, fs1) \<Rightarrow>
          if err \<noteq> None then Inr (err, fs1)
          else (case writeKeysWithError env d fs1 of
                  (err, fs2) \<Rightarrow>
                    if err \<noteq> None then Inr (err, fs2)
                    else Inr (writeDiffDetails env d fs2)))"

text \<open>The orders are orders in which \<^verbatim>\<open>range\<close> may visit the three maps of \<open>d\<close>.\<close>

definition range_orders :: "MutationDiffer \<Rightarrow> string list \<times> string list \<times> string list \<Rightarrow> bool" where
  "range_orders d orders =
     (case orders of (o1, o2, o3) \<Rightarrow>
        range_order (missingFromSource d) o1 \<and> range_order (missingFromTarget d) o2 \<and>
        range_order (diff d) o3)"

section \<open>Example data\<close>

definition example_doc :: gocbcore_GetResult where
  "example_doc = \<lparr>Value = Some [1, 2], Flags = 0, Datatype = 1, Cas = 7\<rparr>"

definition example_found :: "string \<Rightarrow> gocbcore_GetResult \<Rightarrow> GetResult" where
  "example_found k doc = \<lparr>Key = k, Result = Some doc, Error = None\<rparr>"

definition example_failed :: "string \<Rightarrow> string \<Rightarrow> GetResult" where
  "example_failed k msg = \<lparr>Key = k, Result = None, Error = Some msg\<rparr>"

definition example_worker :: DifferWorker where
  "example_worker =
     \<lparr>keys = [''k1'', ''k2'', ''k3'', ''k4'', ''k5'', ''k6''],
      sourceResults =
        [''k1'' \<mapsto> example_found ''k1'' example_doc,
         ''k2'' \<mapsto> example_failed ''k2'' ''key not found'',
         ''k3'' \<mapsto> example_found ''k3'' example_doc,
         ''k4'' \<mapsto> example_found ''k4'' example_doc,
         ''k5'' \<mapsto> example_failed ''k5'' ''key not found'',
         ''k6'' \<mapsto> example_failed ''k6'' ''temporary failure''],
      targetResults =
        [''k1'' \<mapsto> example_found ''k1'' example_doc,
         ''k2'' \<mapsto> example_found ''k2'' example_doc,
         ''k3'' \<mapsto> example_found ''k3'' (example_doc\<lparr>Cas := 8\<rparr>),
         ''k4'' \<mapsto> example_failed ''k4'' ''key not found'',
         ''k5'' \<mapsto> example_failed ''k5'' ''key not found'',
         ''k6'' \<mapsto> example_found ''k6'' example_doc]\<rparr>"

definition example_order :: "string list" where
  "example_order = [''k4'', ''k1'', ''k6'', ''k3'', ''k2'', ''k5'']"

definition example_differ :: MutationDiffer where
  "example_differ =
     (NewMutationDiffer 2 3 2)
       \<lparr>missingFromSource := [''a1'' \<mapsto> Some example_doc],
         diff := [''a2'' \<mapsto> [Some example_doc, Some (example_doc\<lparr>Flags := 2\<rparr>)]],
         keysWithError := [''a3'']\<rparr>"

definition example_fs :: filesystem where
  "example_fs = \<lparr>attempts = [], files = Map.empty\<rparr>"

definition example_disk_full :: "artifact \<Rightarrow> go_error" where
  "example_disk_full a = (if a = DiffKeysFile then Some ''no space left on device'' else None)"

definition example_keys :: "string list" where
  "example_keys = [''k1'', ''k2'', ''k3'', ''k4'', ''k5'', ''k6'', ''k7'']"

text \<open>
  Two attempts that time out: in the first, one callback completes; in the second, none.
\<close>

definition example_timeouts :: "nat \<Rightarrow> batch_step list" where
  "example_timeouts n =
     (if n = 0 then [Enter True 0 (Some example_doc) None, Leave True 0] else [])"

text \<open>
  A run of two workers over three keys, in batches of two keys with a single attempt. The
  sends of the first worker time out; the key of the second worker is found on the source
  and is not found on the target.
\<close>

definition example_candidates :: "string list" where
  "example_candidates = [''a'', ''b'', ''c'']"

definition example_env :: "nat \<Rightarrow> worker_env" where
  "example_env w startIndex n =
     (if w = 1 then
        [Enter True 0 (Some example_doc) None, Enter False 0 None (Some ''key not found''),
         Leave False 0, Leave True 0, Signal]
      else [])"

text \<open>
  The same key twice in the key list, one for each of two workers: the send of the first
  worker times out, the second worker finds the key on the target only.
\<close>

definition example_twice_env :: "nat \<Rightarrow> worker_env" where
  "example_twice_env w startIndex n =
     (if w = 1 then
        [Enter True 0 None (Some ''key not found''), Leave True 0,
         Enter False 0 (Some example_doc) None, Leave False 0, Signal]
      else [])"

text \<open>
  A batch of two keys whose documents differ for the first key. On the source the callback
  of the first key has counted itself and has not yet stored its result when the callback
  of the second key, which counted second, stores its result and signals the wait group.
  When the target's callbacks have come to their end as well, the \<^verbatim>\<open>select\<close> of \<^verbatim>\<open>send\<close>
  receives the signal of the goroutine.
\<close>

definition example_race :: "batch_step list" where
  "example_race =
     [Enter True 0 (Some example_doc) None,
      Enter True 1 (Some example_doc) None,
      Leave True 1,
      Enter False 0 (Some (example_doc\<lparr>Cas := 8\<rparr>)) None,
      Leave False 0,
      Enter False 1 (Some example_doc) None,
      Leave False 1,
      Signal]"

definition example_race_env :: "nat \<Rightarrow> worker_env" where
  "example_race_env w startIndex n = example_race"





section \<open>Properties of the comparator\<close>

lemma diff_iteration_other:
  "diff_iteration dw key sr acc = Inr acc' \<Longrightarrow> k \<noteq> key \<Longrightarrow>
   missingFromSource acc' k = missingFromSource acc k \<and>
   missingFromTarget acc' k = missingFromTarget acc k \<and>
   diff acc' k = diff acc k"
  by (auto simp: diff_iteration_def split: if_splits option.splits)

lemma diff_range_other:
  "diff_range dw order acc = Inr r \<Longrightarrow> k \<notin> set order \<Longrightarrow>
   missingFromSource r k = missingFromSource acc k \<and>
   missingFromTarget r k = missingFromTarget acc k \<and>
   diff r k = diff acc k"
proof (induction order arbitrary: acc)
  case Nil
  then show ?case by simp
next
  case (Cons key rest)
  show ?case
  proof (cases "sourceResults dw key")
    case None
    with Cons show ?thesis by simp
  next
    case (Some sr)
    with Cons.prems obtain acc' where it: "diff_iteration dw key sr acc = Inr acc'"
      and rest: "diff_range dw rest acc' = Inr r"
      by (auto split: sum.splits)
    from Cons.prems have "k \<noteq> key" "k \<notin> set rest" by auto
    with Cons.IH [OF rest] diff_iteration_other [OF it] show ?thesis by simp
  qed
qed

text \<open>
  With every key visited once, the maps at a visited key are what the iteration for that
  key leaves there.
\<close>

lemma diff_range_at:
  assumes "diff_range dw order acc = Inr r" and "distinct order" and "k \<in> set order"
    and "sourceResults dw k = Some sr"
  shows "\<exists>a a'. diff_iteration dw k sr a = Inr a' \<and>
           missingFromSource a k = missingFromSource acc k \<and>
           missingFromTarget a k = missingFromTarget acc k \<and>
           diff a k = diff acc k \<and>
           missingFromSource r k = missingFromSource a' k \<and>
           missingFromTarget r k = missingFromTarget a' k \<and>
           diff r k = diff a' k"
  using assms
proof (induction order arbitrary: acc)
  case Nil
  then show ?case by simp
next
  case (Cons key rest)
  show ?case
  proof (cases "k = key")
    case True
    with Cons.prems obtain acc' where it: "diff_iteration dw k sr acc = Inr acc'"
      and rest: "diff_range dw rest acc' = Inr r"
      by (auto split: sum.splits)
    from Cons.prems True have "k \<notin> set rest" by simp
    from diff_range_other [OF rest this] it show ?thesis by blast
  next
    case False
    with Cons.prems have mem: "k \<in> set rest" and dist: "distinct rest" by auto
    show ?thesis
    proof (cases "sourceResults dw key")
      case None
      with Cons.prems have "diff_range dw rest acc = Inr r" by simp
      from Cons.IH [OF this dist mem Cons.prems(4)] show ?thesis .
    next
      case (Some s)
      with Cons.prems obtain acc' where it: "diff_iteration dw key s acc = Inr acc'"
        and rest: "diff_range dw rest acc' = Inr r"
        by (auto split: sum.splits)
      from Cons.IH [OF rest dist mem Cons.prems(4)] diff_iteration_other [OF it False]
      show ?thesis by auto
    qed
  qed
qed

text \<open>The three local maps at a key, as a function of the two results for the key.\<close>

lemma diff_local_at:
  assumes "diff_local dw order = Inr r" and "range_order (sourceResults dw) order"
    and "sourceResults dw k = Some sr" and "targetResults dw k = Some tr"
  shows "diff_iteration dw k sr DiffMaps_empty =
           Inr \<lparr>missingFromSource = (\<lambda>x. if x = k then missingFromSource r k else None),
                missingFromTarget = (\<lambda>x. if x = k then missingFromTarget r k else None),
                diff = (\<lambda>x. if x = k then diff r k else None)\<rparr>"
proof -
  from assms have "k \<in> set order" "distinct order"
    by (auto simp: range_order_def)
  from diff_range_at [OF assms(1) [unfolded diff_local_def] this(2) this(1) assms(3)]
  obtain a a' where it: "diff_iteration dw k sr a = Inr a'"
    and a: "missingFromSource a k = None" "missingFromTarget a k = None" "diff a k = None"
    and r: "missingFromSource r k = missingFromSource a' k"
      "missingFromTarget r k = missingFromTarget a' k" "diff r k = diff a' k"
    by (auto simp: DiffMaps_empty_def)
  from it a r assms(4) show ?thesis
    by (auto simp: diff_iteration_def DiffMaps_empty_def fun_eq_iff split: if_splits)
qed

lemmas example_defs = example_doc_def example_found_def example_failed_def example_worker_def
  example_order_def

lemma example_range_order: "range_order (sourceResults example_worker) example_order"
  by (auto simp: example_defs range_order_def)

lemma example_dom: "dom (sourceResults example_worker) \<subseteq> dom (targetResults example_worker)"
  by (simp add: example_defs)

lemma diff_range_total:
  "dom (sourceResults dw) \<subseteq> dom (targetResults dw) \<Longrightarrow> \<exists>r. diff_range dw order acc = Inr r"
proof (induction order arbitrary: acc)
  case Nil
  then show ?case by simp
next
  case (Cons key rest)
  show ?case
  proof (cases "sourceResults dw key")
    case None
    with Cons show ?thesis by simp
  next
    case (Some sr)
    with Cons.prems obtain tr where "targetResults dw key = Some tr" by blast
    then have "\<exists>acc'. diff_iteration dw key sr acc = Inr acc'"
      by (simp add: diff_iteration_def)
    then obtain acc' where "diff_iteration dw key sr acc = Inr acc'" ..
    with Some Cons.IH [OF Cons.prems, of acc'] show ?thesis by simp
  qed
qed

lemma diff_local_table:
  assumes "diff_local dw order = Inr r" and "range_order (sourceResults dw) order"
    and "sourceResults dw k = Some sr" and "targetResults dw k = Some tr"
  shows "missingFromSource r k =
           (if Key sr \<noteq> [] \<and> Key tr \<noteq> [] \<and> isKeyNotFoundError (Error sr) \<and> \<not> isKeyNotFoundError (Error tr)
            then Some (Result tr) else None)"
    and "missingFromTarget r k =
           (if Key sr \<noteq> [] \<and> Key tr \<noteq> [] \<and> \<not> isKeyNotFoundError (Error sr) \<and> isKeyNotFoundError (Error tr)
            then Some (Result sr) else None)"
    and "diff r k =
           (if Key sr \<noteq> [] \<and> Key tr \<noteq> [] \<and> isKeyNotFoundError (Error sr) = isKeyNotFoundError (Error tr) \<and>
               \<not> areGetResultsTheSame (Result sr) (Result tr)
            then Some [Result sr, Result tr] else None)"
  using diff_local_at [OF assms] assms(4)
  by (auto simp: diff_iteration_def DiffMaps_empty_def fun_eq_iff split: if_splits)

lemma diff_local_classifies:
  assumes "range_order (sourceResults dw) order"
    and "dom (sourceResults dw) \<subseteq> dom (targetResults dw)"
    and "sourceResults dw k = Some sr" and "targetResults dw k = Some tr"
  shows "\<exists>r. diff_local dw order = Inr r \<and>
     missingFromSource r k =
           (if Key sr \<noteq> [] \<and> Key tr \<noteq> [] \<and> isKeyNotFoundError (Error sr) \<and> \<not> isKeyNotFoundError (Error tr)
            then Some (Result tr) else None) \<and>
     missingFromTarget r k =
           (if Key sr \<noteq> [] \<and> Key tr \<noteq> [] \<and> \<not> isKeyNotFoundError (Error sr) \<and> isKeyNotFoundError (Error tr)
            then Some (Result sr) else None) \<and>
     diff r k =
           (if Key sr \<noteq> [] \<and> Key tr \<noteq> [] \<and> isKeyNotFoundError (Error sr) = isKeyNotFoundError (Error tr) \<and>
               \<not> areGetResultsTheSame (Result sr) (Result tr)
            then Some [Result sr, Result tr] else None)"
proof -
  from diff_range_total [OF assms(2)] obtain r where r: "diff_local dw order = Inr r"
    unfolding diff_local_def by blast
  from diff_local_table [OF r assms(1,3,4)] r show ?thesis by blast
qed

lemma diff_at_classifies:
  assumes "range_order (sourceResults dw) order"
    and "dom (sourceResults dw) \<subseteq> dom (targetResults dw)"
    and "sourceResults dw k = Some sr" and "targetResults dw k = Some tr"
  shows "diff_at dw order k =
     Inr (if Key sr \<noteq> [] \<and> Key tr \<noteq> [] \<and> isKeyNotFoundError (Error sr) \<and> \<not> isKeyNotFoundError (Error tr)
            then Some (Result tr) else None,
          if Key sr \<noteq> [] \<and> Key tr \<noteq> [] \<and> \<not> isKeyNotFoundError (Error sr) \<and> isKeyNotFoundError (Error tr)
            then Some (Result sr) else None,
          if Key sr \<noteq> [] \<and> Key tr \<noteq> [] \<and> isKeyNotFoundError (Error sr) = isKeyNotFoundError (Error tr) \<and>
               \<not> areGetResultsTheSame (Result sr) (Result tr)
            then Some [Result sr, Result tr] else None)"
proof -
  from diff_local_classifies [OF assms] obtain r where "diff_local dw order = Inr r"
    and "missingFromSource r k =
           (if Key sr \<noteq> [] \<and> Key tr \<noteq> [] \<and> isKeyNotFoundError (Error sr) \<and> \<not> isKeyNotFoundError (Error tr)
            then Some (Result tr) else None)"
    and "missingFromTarget r k =
           (if Key sr \<noteq> [] \<and> Key tr \<noteq> [] \<and> \<not> isKeyNotFoundError (Error sr) \<and> isKeyNotFoundError (Error tr)
            then Some (Result sr) else None)"
    and "diff r k =
           (if Key sr \<noteq> [] \<and> Key tr \<noteq> [] \<and> isKeyNotFoundError (Error sr) = isKeyNotFoundError (Error tr) \<and>
               \<not> areGetResultsTheSame (Result sr) (Result tr)
            then Some [Result sr, Result tr] else None)"
    by blast
  then show ?thesis by (simp add: diff_at_def)
qed

text \<open>
  Claim C7. For a key whose two results are completed (\<^verbatim>\<open>Key\<close> set by the callback) and
  whose two fetches succeeded (no error, a document on each side), \<^verbatim>\<open>diff\<close> compares the
  documents' \<^verbatim>\<open>Value\<close> (by \<^verbatim>\<open>reflect.DeepEqual\<close>), \<^verbatim>\<open>Flags\<close>, \<^verbatim>\<open>Datatype\<close> and
  \<^verbatim>\<open>Cas\<close>: if one of the four differs, the key is in the \<^verbatim>\<open>diff\<close> map with the pair
  [source document, target document]; if all four agree, the key is in none of the three
  maps. The run of \<^verbatim>\<open>diff\<close> does not panic.
\<close>

theorem C7_compared_on_four_fields:
  assumes "range_order (sourceResults dw) order"
    and "dom (sourceResults dw) \<subseteq> dom (targetResults dw)"
    and "sourceResults dw k = Some sr" and "targetResults dw k = Some tr"
    and "Key sr \<noteq> []" and "Key tr \<noteq> []"
    and "Error sr = None" and "Error tr = None"
    and "Result sr = Some a" and "Result tr = Some b"
  shows "diff_at dw order k =
           Inr (None, None,
                if Value a = Value b \<and> Flags a = Flags b \<and> Datatype a = Datatype b \<and> Cas a = Cas b
                then None else Some [Some a, Some b])"
  using diff_at_classifies [OF assms(1-4)] assms(5-10)
  by (simp add: isKeyNotFoundError_def areGetResultsTheSame_def)

theorem C7_compared_on_four_fields_witness:
  "diff_at example_worker example_order ''k3'' =
     Inr (None, None, Some [Some example_doc, Some (example_doc\<lparr>Cas := 8\<rparr>)]) \<and>
   diff_at example_worker example_order ''k1'' = Inr (None, None, None)"
  using C7_compared_on_four_fields [OF example_range_order example_dom, of "''k3''"
      "example_found ''k3'' example_doc" "example_found ''k3'' (example_doc\<lparr>Cas := 8\<rparr>)"
      example_doc "example_doc\<lparr>Cas := 8\<rparr>"]
    C7_compared_on_four_fields [OF example_range_order example_dom, of "''k1''"
      "example_found ''k1'' example_doc" "example_found ''k1'' example_doc"
      example_doc example_doc]
  by (simp add: example_defs)

text \<open>
  Claim C8. For a key whose two results are completed: when the source's error is the
  not-found error and the target's is not, the key is in \<^verbatim>\<open>missingFromSource\<close> with the
  target's document and in no other map; when the target's error is the not-found error and
  the source's is not, the key is in \<^verbatim>\<open>missingFromTarget\<close> with the source's document and
  in no other map.
\<close>

theorem C8_missing_from_one_side:
  assumes "range_order (sourceResults dw) order"
    and "dom (sourceResults dw) \<subseteq> dom (targetResults dw)"
    and "sourceResults dw k = Some sr" and "targetResults dw k = Some tr"
    and "Key sr \<noteq> []" and "Key tr \<noteq> []"
  shows "(isKeyNotFoundError (Error sr) \<and> \<not> isKeyNotFoundError (Error tr) \<longrightarrow>
            diff_at dw order k = Inr (Some (Result tr), None, None)) \<and>
         (\<not> isKeyNotFoundError (Error sr) \<and> isKeyNotFoundError (Error tr) \<longrightarrow>
            diff_at dw order k = Inr (None, Some (Result sr), None))"
  using diff_at_classifies [OF assms(1-4)] assms(5-6)
  by simp

theorem C8_missing_from_one_side_witness:
  "diff_at example_worker example_order ''k2'' = Inr (Some (Some example_doc), None, None) \<and>
   diff_at example_worker example_order ''k4'' = Inr (None, Some (Some example_doc), None)"
  using C8_missing_from_one_side [OF example_range_order example_dom, of "''k2''"
      "example_failed ''k2'' ''key not found''" "example_found ''k2'' example_doc"]
    C8_missing_from_one_side [OF example_range_order example_dom, of "''k4''"
      "example_found ''k4'' example_doc" "example_failed ''k4'' ''key not found''"]
  by (simp add: example_defs isKeyNotFoundError_def KeyNotFoundErrMsg_def)

text \<open>
  Claim C2 says that a completed pair of results in which a side carries a fetch error other
  than not-found is put in none of the three maps. The code does not do so: \<^verbatim>\<open>diff\<close>
  looks at an error only through \<^verbatim>\<open>isKeyNotFoundError\<close>. The key \<open>k6\<close> of the example
  worker failed on the source with another error (no document) and was found on the target;
  it is in the \<^verbatim>\<open>diff\<close> map, as a mismatch of no document with the target's document.
\<close>

theorem C2_other_error_classified_counterexample:
  "Error (example_failed ''k6'' ''temporary failure'') \<noteq> None \<and>
   \<not> isKeyNotFoundError (Error (example_failed ''k6'' ''temporary failure'')) \<and>
   sourceResults example_worker ''k6'' = Some (example_failed ''k6'' ''temporary failure'') \<and>
   targetResults example_worker ''k6'' = Some (example_found ''k6'' example_doc) \<and>
   diff_at example_worker example_order ''k6'' = Inr (None, None, Some [None, Some example_doc])"
  using diff_at_classifies [OF example_range_order example_dom, of "''k6''"
      "example_failed ''k6'' ''temporary failure''" "example_found ''k6'' example_doc"]
  by (simp add: example_defs isKeyNotFoundError_def KeyNotFoundErrMsg_def areGetResultsTheSame_def)

text \<open>
  Claim C2, amended. For a completed pair of results in which a side carries a fetch error
  other than not-found, the key is classified as any other completed pair is, by the
  not-found test and the documents alone: it is in \<^verbatim>\<open>missingFromSource\<close> (with the target's
  document) when the source is not-found, in \<^verbatim>\<open>missingFromTarget\<close> (with the source's
  document) when the target is not-found, in \<^verbatim>\<open>diff\<close> (with both documents) when neither
  is not-found and \<^verbatim>\<open>areGetResultsTheSame\<close> fails, and it is in none of the three maps
  only when neither is not-found and the two documents are the same (both \<^verbatim>\<open>nil\<close>, or equal
  in the four fields).
\<close>

theorem C2_other_error_not_examined:
  assumes "range_order (sourceResults dw) order"
    and "dom (sourceResults dw) \<subseteq> dom (targetResults dw)"
    and "sourceResults dw k = Some sr" and "targetResults dw k = Some tr"
    and "Key sr \<noteq> []" and "Key tr \<noteq> []"
    and "Error sr \<noteq> None \<and> \<not> isKeyNotFoundError (Error sr) \<or>
         Error tr \<noteq> None \<and> \<not> isKeyNotFoundError (Error tr)"
  shows "diff_at dw order k =
           Inr (if isKeyNotFoundError (Error sr) then Some (Result tr) else None,
                if isKeyNotFoundError (Error tr) then Some (Result sr) else None,
                if \<not> isKeyNotFoundError (Error sr) \<and> \<not> isKeyNotFoundError (Error tr) \<and>
                   \<not> areGetResultsTheSame (Result sr) (Result tr)
                then Some [Result sr, Result tr] else None)"
  using diff_at_classifies [OF assms(1-4)] assms(5-7)
  by auto

theorem C2_other_error_not_examined_witness:
  "diff_at example_worker example_order ''k6'' = Inr (None, None, Some [None, Some example_doc])"
  using C2_other_error_not_examined [OF example_range_order example_dom, of "''k6''"
      "example_failed ''k6'' ''temporary failure''" "example_found ''k6'' example_doc"]
  by (simp add: example_defs isKeyNotFoundError_def KeyNotFoundErrMsg_def areGetResultsTheSame_def)

lemma fill_keys_append:
  "index + length ks \<le> length a \<Longrightarrow>
   fill_keys ks (a, index) =
     Inr (take index a @ ks @ drop (index + length ks) a, index + length ks)"
proof (induction ks arbitrary: a index)
  case Nil
  then show ?case by simp
next
  case (Cons key rest)
  from Cons.prems have lt: "index < length a" and le: "Suc index + length rest \<le> length (a[index := key])"
    by simp_all
  have "take (Suc index) (a[index := key]) = take index a @ [key]"
    using lt by (simp add: take_Suc_conv_app_nth)
  moreover have "drop (Suc index + length rest) (a[index := key]) = drop (Suc index + length rest) a"
    by simp
  ultimately show ?case
    using lt Cons.IH [OF le] by simp
qed

lemma diffKeys_array_append: "diffKeys_array (o1, o2, o3) = Inr (o1 @ o2 @ o3)"
  by (simp add: diffKeys_array_def fill_keys_append)

lemma example_diff_local:
  "diff_local example_worker example_order =
     Inr \<lparr>missingFromSource = [''k2'' \<mapsto> Some example_doc],
          missingFromTarget = [''k4'' \<mapsto> Some example_doc],
          diff = [''k6'' \<mapsto> [None, Some example_doc],
                  ''k3'' \<mapsto> [Some example_doc, Some (example_doc\<lparr>Cas := 8\<rparr>)]]\<rparr>"
  by (simp add: example_defs diff_local_def diff_iteration_def DiffMaps_empty_def
      isKeyNotFoundError_def KeyNotFoundErrMsg_def areGetResultsTheSame_def)

text \<open>
  Claim C10. For a key whose two fetches ended with the not-found error and no document,
  the \<^verbatim>\<open>nil\<close> check of \<^verbatim>\<open>areGetResultsTheSame\<close> holds and \<^verbatim>\<open>diff\<close> puts the key in none
  of the three local maps; once the local maps are added to an aggregate that does not hold
  the key, the array that \<^verbatim>\<open>writeKeysWithDiff\<close> builds for the diff-keys file does not
  hold the key either, whatever the order in which \<^verbatim>\<open>range\<close> visits the maps.
\<close>

theorem C10_both_not_found_is_match:
  assumes "range_order (sourceResults dw) order"
    and "dom (sourceResults dw) \<subseteq> dom (targetResults dw)"
    and "sourceResults dw k = Some sr" and "targetResults dw k = Some tr"
    and "isKeyNotFoundError (Error sr)" and "isKeyNotFoundError (Error tr)"
    and "Result sr = None" and "Result tr = None"
  shows "areGetResultsTheSame (Result sr) (Result tr) \<and>
         diff_at dw order k = Inr (None, None, None) \<and>
         (\<exists>r. diff_local dw order = Inr r \<and>
            (\<forall>d orders.
               k \<notin> dom (missingFromSource d) \<and> k \<notin> dom (missingFromTarget d) \<and>
               k \<notin> dom (diff d) \<and> range_orders (addDiff r d) orders \<longrightarrow>
               (\<exists>diffKeys. diffKeys_array orders = Inr diffKeys \<and> k \<notin> set diffKeys)))"
proof -
  have same: "areGetResultsTheSame (Result sr) (Result tr)"
    using assms(7,8) by (simp add: areGetResultsTheSame_def)
  have at: "diff_at dw order k = Inr (None, None, None)"
    using diff_at_classifies [OF assms(1-4)] assms(5,6) same by simp
  then obtain r where r: "diff_local dw order = Inr r"
    and none: "missingFromSource r k = None" "missingFromTarget r k = None" "diff r k = None"
    by (auto simp: diff_at_def split: sum.splits)
  have "\<exists>diffKeys. diffKeys_array orders = Inr diffKeys \<and> k \<notin> set diffKeys"
    if "k \<notin> dom (missingFromSource d)" "k \<notin> dom (missingFromTarget d)" "k \<notin> dom (diff d)"
      "range_orders (addDiff r d) orders" for d orders
  proof -
    obtain o1 o2 o3 where o: "orders = (o1, o2, o3)" by (cases orders) auto
    from that none o have "k \<notin> set o1" "k \<notin> set o2" "k \<notin> set o3"
      by (auto simp: range_orders_def range_order_def addDiff_def)
    then show ?thesis by (simp add: o diffKeys_array_append)
  qed
  with same at r show ?thesis by blast
qed

theorem C10_both_not_found_is_match_witness:
  "diff_at example_worker example_order ''k5'' = Inr (None, None, None) \<and>
   (\<exists>diffKeys. diffKeys_array ([''k2'', ''a1''], [''k4''], [''k3'', ''k6'', ''a2'']) = Inr diffKeys \<and>
      ''k5'' \<notin> set diffKeys)"
proof -
  let ?nf = "example_failed ''k5'' ''key not found''"
  let ?orders = "([''k2'', ''a1''], [''k4''], [''k3'', ''k6'', ''a2''])"
  have s: "sourceResults example_worker ''k5'' = Some ?nf"
    and t: "targetResults example_worker ''k5'' = Some ?nf"
    by (simp_all add: example_defs)
  have e: "isKeyNotFoundError (Error ?nf)" and n: "Result ?nf = None"
    by (simp_all add: example_failed_def isKeyNotFoundError_def KeyNotFoundErrMsg_def)
  from C10_both_not_found_is_match [OF example_range_order example_dom s t e e n n]
  obtain r where at: "diff_at example_worker example_order ''k5'' = Inr (None, None, None)"
    and r: "diff_local example_worker example_order = Inr r"
    and out: "\<forall>d orders.
               ''k5'' \<notin> dom (missingFromSource d) \<and> ''k5'' \<notin> dom (missingFromTarget d) \<and>
               ''k5'' \<notin> dom (diff d) \<and> range_orders (addDiff r d) orders \<longrightarrow>
               (\<exists>diffKeys. diffKeys_array orders = Inr diffKeys \<and> ''k5'' \<notin> set diffKeys)"
    by blast
  have absent: "''k5'' \<notin> dom (missingFromSource example_differ) \<and>
      ''k5'' \<notin> dom (missingFromTarget example_differ) \<and> ''k5'' \<notin> dom (diff example_differ)"
    by (simp add: example_differ_def NewMutationDiffer_def)
  have "range_orders (addDiff r example_differ) ?orders"
    using r unfolding example_diff_local
    by (auto simp: range_orders_def range_order_def addDiff_def example_differ_def
        NewMutationDiffer_def split: if_splits)
  with out absent have "\<exists>diffKeys. diffKeys_array ?orders = Inr diffKeys \<and> ''k5'' \<notin> set diffKeys"
    by blast
  with at show ?thesis by blast
qed

text \<open>
  Claim C3 says that the three artifacts are attempted independently and that the diff-keys
  and the error-keys files are written unconditionally. In \<^verbatim>\<open>writeDiff\<close> each step returns
  at an error: when writing the diff-keys file fails, neither the error-keys file nor the
  diff details are attempted.
\<close>

theorem C3_first_failure_stops_counterexample:
  "writeDiff example_disk_full ([''a1''], [], [''a2'']) example_differ example_fs =
     Inr (Some ''no space left on device'', \<lparr>attempts = [DiffKeysFile], files = Map.empty\<rparr>)"
  by (simp add: writeDiff_def writeKeysWithDiff_def diffKeys_array_append write_file_def
      example_disk_full_def example_fs_def)

text \<open>
  Claim C3, amended. \<^verbatim>\<open>writeDiff\<close> attempts the diff-keys file always, the error-keys file
  if and only if the diff-keys file was written without error, and the diff details if and
  only if both were; it returns the first error met (the later artifacts are then not
  attempted), or what writing the diff details returned.
\<close>

theorem C3_artifacts_written_in_sequence:
  "\<exists>fs'. writeDiff env orders d fs =
            Inr (if env DiffKeysFile \<noteq> None then env DiffKeysFile
                 else if env ErrorKeysFile \<noteq> None then env ErrorKeysFile
                 else env DiffDetailsFile, fs') \<and>
          attempts fs' =
            attempts fs @
              (if env DiffKeysFile \<noteq> None then [DiffKeysFile]
               else if env ErrorKeysFile \<noteq> None then [DiffKeysFile, ErrorKeysFile]
               else [DiffKeysFile, ErrorKeysFile, DiffDetailsFile])"
proof -
  obtain o1 o2 o3 where o: "orders = (o1, o2, o3)" by (cases orders) auto
  show ?thesis
    by (simp add: o writeDiff_def writeKeysWithDiff_def writeKeysWithError_def writeDiffDetails_def
        diffKeys_array_append write_file_def)
qed

theorem C3_artifacts_written_in_sequence_witness:
  "\<exists>fs'. writeDiff (\<lambda>a. None) ([''a1''], [], [''a2'']) example_differ example_fs = Inr (None, fs') \<and>
          attempts fs' = [DiffKeysFile, ErrorKeysFile, DiffDetailsFile]"
  using C3_artifacts_written_in_sequence [of "\<lambda>a. None" "([''a1''], [], [''a2''])" example_differ example_fs]
  by (simp add: example_fs_def)

lemma ceil_div_step:
  fixes B L i :: int
  assumes "0 < B" "i + B < L"
  shows "nat ((L - i + B - 1) div B) = Suc (nat ((L - (i + B) + B - 1) div B))"
proof -
  have "L - i + B - 1 = (L - (i + B) + B - 1) + B" by simp
  then have "(L - i + B - 1) div B = (L - (i + B) + B - 1) div B + 1"
    using assms by (metis div_add_self2 less_irrefl)
  moreover have "0 \<le> (L - (i + B) + B - 1) div B"
    using assms by (simp add: pos_imp_zdiv_nonneg_iff)
  ultimately show ?thesis by simp
qed

lemma ceil_div_last:
  fixes B L i :: int
  assumes "0 < B" "i < L" "L \<le> i + B"
  shows "nat ((L - i + B - 1) div B) = 1"
proof -
  have "L - i + B - 1 = (L - i - 1) + B" by simp
  then have "(L - i + B - 1) div B = (L - i - 1) div B + 1"
    using assms by (metis div_add_self2 less_irrefl)
  moreover have "(L - i - 1) div B = 0"
    using assms by (simp add: div_pos_pos_trivial)
  ultimately show ?thesis by simp
qed

lemma ceil_div_none:
  fixes B L i :: int
  assumes "0 < B" "L \<le> i"
  shows "nat ((L - i + B - 1) div B) = 0"
proof -
  have "L - i + B - 1 \<le> B - 1" using assms by simp
  then have "(L - i + B - 1) div B \<le> (B - 1) div B"
    using assms by (intro zdiv_mono1) simp_all
  moreover have "(B - 1) div B = 0"
    using assms by (simp add: div_pos_pos_trivial)
  ultimately show ?thesis by simp
qed

lemma consecutive_batches_step:
  assumes "0 < B" "i + B < L"
  shows "consecutive_batches B L i = (i, i + B) # consecutive_batches B L (i + B)"
proof -
  let ?f = "\<lambda>j. (i + int j * B, min (i + int j * B + B) L)"
  let ?g = "\<lambda>j. (i + B + int j * B, min (i + B + int j * B + B) L)"
  let ?n = "nat ((L - (i + B) + B - 1) div B)"
  have upt: "[0..<Suc ?n] = 0 # map Suc [0..<?n]"
    by (simp add: upt_conv_Cons map_Suc_upt del: upt_Suc)
  have shift: "?f (Suc j) = ?g j" for j
    by (simp add: algebra_simps)
  have "consecutive_batches B L i = map ?f [0..<Suc ?n]"
    unfolding consecutive_batches_def ceil_div_step [OF assms] ..
  also have "\<dots> = ?f 0 # map (\<lambda>j. ?f (Suc j)) [0..<?n]"
    unfolding upt by (simp add: comp_def)
  also have "?f 0 = (i, i + B)"
    using assms by simp
  also have "map (\<lambda>j. ?f (Suc j)) [0..<?n] = consecutive_batches B L (i + B)"
    unfolding consecutive_batches_def shift ..
  finally show ?thesis .
qed

lemma loop_record:
  assumes "0 < B"
  shows "getResults_loop record_batch (\<lambda>_. B) (\<lambda>_. L) i log = Some (Inr (log @ consecutive_batches B L i))"
proof (induction "nat (L - i)" arbitrary: i log rule: less_induct)
  case less
  consider "L \<le> i" | "i + B < L" | "i < L" "L \<le> i + B" by linarith
  then show ?case
  proof cases
    case 1
    with assms show ?thesis
      by (subst getResults_loop.simps) (simp add: getResults_iteration_def consecutive_batches_def ceil_div_none)
  next
    case 2
    with assms have "nat (L - (i + B)) < nat (L - i)" by simp
    from less [OF this] 2 assms show ?thesis
      by (subst getResults_loop.simps) (simp add: getResults_iteration_def record_batch_def consecutive_batches_step)
  next
    case 3
    with assms show ?thesis
      by (subst getResults_loop.simps) (simp add: getResults_iteration_def record_batch_def consecutive_batches_def ceil_div_last)
  qed
qed


lemma consecutive_batches_concat:
  assumes "0 < B" and "0 \<le> i"
  shows "concat (map (\<lambda>(s, e). take (nat (e - s)) (drop (nat s) ks))
           (consecutive_batches B (int (length ks)) i)) = drop (nat i) ks"
  using assms(2)
proof (induction "nat (int (length ks) - i)" arbitrary: i rule: less_induct)
  case less
  let ?L = "int (length ks)"
  consider "?L \<le> i" | "i + B < ?L" | "i < ?L" "?L \<le> i + B" by linarith
  then show ?case
  proof cases
    case 1
    with assms less.prems show ?thesis
      by (simp add: consecutive_batches_def ceil_div_none)
  next
    case 2
    with assms have m: "nat (?L - (i + B)) < nat (?L - i)" and nn: "0 \<le> i + B"
      using less.prems by simp_all
    have "take (nat B) (drop (nat i) ks) @ drop (nat (i + B)) ks = drop (nat i) ks"
    proof -
      have "nat (i + B) = nat B + nat i" using assms less.prems by (simp add: nat_add_distrib)
      then have "drop (nat (i + B)) ks = drop (nat B) (drop (nat i) ks)" by simp
      then show ?thesis by (simp only: append_take_drop_id)
    qed
    with less.hyps [OF m nn] 2 assms show ?thesis
      by (simp add: consecutive_batches_step)
  next
    case 3
    with assms less.prems have "nat (?L - i) = length ks - nat i"
      by (simp add: nat_diff_distrib)
    with 3 assms show ?thesis
      by (simp add: consecutive_batches_def ceil_div_last)
  qed
qed

lemma consecutive_batches_nth:
  assumes "0 < B" and "0 \<le> L" and "j < length (consecutive_batches B L 0)"
  shows "consecutive_batches B L 0 ! j =
           (int j * B, if Suc j < length (consecutive_batches B L 0) then int j * B + B else L)"
    and "int j * B < L"
    and "\<not> Suc j < length (consecutive_batches B L 0) \<Longrightarrow> L \<le> int j * B + B"
proof -
  let ?n = "(L + B - 1) div B"
  have n0: "0 \<le> ?n" using assms by (simp add: pos_imp_zdiv_nonneg_iff)
  have len: "int (length (consecutive_batches B L 0)) = ?n"
    using n0 by (simp add: consecutive_batches_def)
  have lo: "?n * B \<le> L + B - 1"
  proof -
    have "0 \<le> (L + B - 1) mod B" using assms(1) by simp
    moreover have "L + B - 1 = ?n * B + (L + B - 1) mod B" by simp
    ultimately show ?thesis by linarith
  qed
  have hi: "L + B - 1 < ?n * B + B"
  proof -
    have "(L + B - 1) mod B < B" using assms(1) by simp
    moreover have "L + B - 1 = ?n * B + (L + B - 1) mod B" by simp
    ultimately show ?thesis by linarith
  qed
  from assms(3) len have j: "int j + 1 \<le> ?n" by linarith
  then have "(int j + 1) * B \<le> ?n * B" using assms(1) by (simp add: mult_right_mono)
  with lo show lt: "int j * B < L" by (simp add: algebra_simps)
  have "int j * B + B \<le> L" if "Suc j < length (consecutive_batches B L 0)"
  proof -
    from that len have "int j + 2 \<le> ?n" by linarith
    then have "(int j + 2) * B \<le> ?n * B" using assms(1) by (simp add: mult_right_mono)
    with lo show ?thesis by (simp add: algebra_simps)
  qed
  moreover have last: "L \<le> int j * B + B" if "\<not> Suc j < length (consecutive_batches B L 0)"
  proof -
    from that assms(3) len have "?n = int j + 1" by linarith
    then have "?n * B = (int j + 1) * B" by (rule arg_cong)
    then have "?n * B = int j * B + B" by (simp only: distrib_right mult_1)
    with hi show ?thesis by linarith
  qed
  ultimately show "consecutive_batches B L 0 ! j =
           (int j * B, if Suc j < length (consecutive_batches B L 0) then int j * B + B else L)"
    using assms(3) by (auto simp: consecutive_batches_def)
  show "\<not> Suc j < length (consecutive_batches B L 0) \<Longrightarrow> L \<le> int j * B + B"
    using last .
qed


text \<open>
  Claim C9. For a key slice \<open>ks\<close> of length \<open>L\<close> and a batch size \<open>B > 0\<close>, the loop of
  \<^verbatim>\<open>getResults\<close> ends and calls \<^verbatim>\<open>sendBatchWithRetry\<close> on consecutive batches: batch \<open>j\<close>
  starts at \<open>j B\<close>; every batch but the last ends \<open>B\<close> later, where the next one starts,
  and the last ends at \<open>L\<close> with between 1 and \<open>B\<close> keys. The batches' slices of \<open>ks\<close>, put
  one after the other, are \<open>ks\<close>: no index is left out and none is covered twice.
\<close>

theorem C9_batches_cover_slice:
  assumes "0 < B"
  shows "\<exists>batches.
           getResults_batches B (int (length ks)) = Some (Inr batches) \<and>
           batches = consecutive_batches B (int (length ks)) 0 \<and>
           concat (map (\<lambda>(s, e). take (nat (e - s)) (drop (nat s) ks)) batches) = ks \<and>
           (\<forall>j < length batches.
              fst (batches ! j) = int j * B \<and>
              snd (batches ! j) =
                (if Suc j < length batches then int j * B + B else int (length ks)) \<and>
              0 < snd (batches ! j) - fst (batches ! j) \<and>
              snd (batches ! j) - fst (batches ! j) \<le> B)"
proof -
  let ?L = "int (length ks)"
  let ?bs = "consecutive_batches B ?L 0"
  have run: "getResults_batches B ?L = Some (Inr ?bs)"
    using loop_record [OF assms, of ?L 0 "[]"] by (simp add: getResults_batches_def)
  have cover: "concat (map (\<lambda>(s, e). take (nat (e - s)) (drop (nat s) ks)) ?bs) = ks"
    using consecutive_batches_concat [OF assms, of 0 ks] by simp
  have each: "fst (?bs ! j) = int j * B \<and>
      snd (?bs ! j) = (if Suc j < length ?bs then int j * B + B else ?L) \<and>
      0 < snd (?bs ! j) - fst (?bs ! j) \<and> snd (?bs ! j) - fst (?bs ! j) \<le> B"
    if "j < length ?bs" for j
  proof -
    have L: "0 \<le> ?L" by simp
    note n = consecutive_batches_nth [OF assms L that]
    show ?thesis
    proof (cases "Suc j < length ?bs")
      case True
      with n(1) assms show ?thesis by simp
    next
      case False
      with n(1) n(2) n(3) show ?thesis by simp
    qed
  qed
  from run cover each show ?thesis by blast
qed

theorem C9_batches_cover_slice_witness:
  "getResults_batches 3 (int (length example_keys)) = Some (Inr [(0, 3), (3, 6), (6, 7)]) \<and>
   concat (map (\<lambda>(s, e). take (nat (e - s)) (drop (nat s) example_keys)) [(0, 3), (3, 6), (6, 7)]) =
     example_keys"
proof -
  have "getResults_batches 3 (int (length example_keys)) = Some (Inr [(0, 3), (3, 6), (6, 7)])"
    by (simp add: example_keys_def getResults_batches_def getResults_loop.simps getResults_iteration_def record_batch_def)
  moreover from C9_batches_cover_slice [of 3 example_keys]
  obtain batches where "getResults_batches 3 (int (length example_keys)) = Some (Inr batches)"
    and "concat (map (\<lambda>(s, e). take (nat (e - s)) (drop (nat s) example_keys)) batches) =
      example_keys"
    by auto
  ultimately show ?thesis by simp
qed

lemma go_slice_Inr:
  "go_slice xs s e = Inr ys \<longleftrightarrow>
     0 \<le> s \<and> s \<le> e \<and> e \<le> int (length xs) \<and> ys = take (nat (e - s)) (drop (nat s) xs)"
  by (auto simp: go_slice_def)

lemma go_slice_length:
  "go_slice xs s e = Inr ys \<Longrightarrow> int (length ys) = e - s"
  by (auto simp: go_slice_def split: if_splits)

lemma NewBatch_Inr:
  "NewBatch dw s e = Inr b \<longleftrightarrow>
     (\<exists>ks. go_slice (keys dw) s e = Inr ks \<and>
        b = \<lparr>keys = ks,
             sourceResults = fold (\<lambda>key m. m(key \<mapsto> GetResult_zero)) ks Map.empty,
             targetResults = fold (\<lambda>key m. m(key \<mapsto> GetResult_zero)) ks Map.empty,
             waitGroup = 0, sourceResultCount = 0, targetResultCount = 0\<rparr>)"
  by (auto simp: NewBatch_def split: sum.splits)

lemma fold_placeholders:
  "fold (\<lambda>key m. m(key \<mapsto> v)) ks m0 k = (if k \<in> set ks then Some v else m0 k)"
  by (induction ks arbitrary: m0) auto

lemma send_wait_error:
  "fst (send_wait steps s) = None \<or> fst (send_wait steps s) = Some ''mutation differ batch timed out''"
proof (induction steps arbitrary: s)
  case Nil
  show ?case by (cases s) simp
next
  case (Cons step steps)
  show ?case
  proof (cases s)
    case (Pair b run)
    obtain b' run' where c: "getCallbackFunc step (b, run) = (b', run')"
      by (cases "getCallbackFunc step (b, run)")
    from Cons [of "(b', run')"] show ?thesis
      by (simp add: Pair c)
  qed
qed

lemma send_error:
  "fst (send steps b) \<noteq> None \<Longrightarrow> fst (send steps b) = Some ''mutation differ batch timed out''"
  using send_wait_error [of steps "(b\<lparr>waitGroup := waitGroup b + 2\<rparr>, Map.empty)"]
  by (auto simp: send_def)

lemma sendBatchFunc_fails:
  assumes "NewBatch dw s e = Inr b" and "fst (send (env n) b) \<noteq> None"
  shows "sendBatchFunc env s e n dw = Inr (Some ''mutation differ batch timed out'', dw)"
proof -
  obtain err b' where r: "send (env n) b = (err, b')" by (cases "send (env n) b")
  with send_error [OF assms(2)] have "err = Some ''mutation differ batch timed out''" by simp
  with r assms(1) show ?thesis by (simp add: sendBatchFunc_def)
qed

lemma executor_all_fail:
  assumes "\<And>n. k \<le> n \<Longrightarrow> n < k + m \<Longrightarrow> op n s = Inr (Some err, s)"
  shows "ExponentialBackoffExecutor m op k lastErr s = Inr (if m = 0 then lastErr else Some err, s)"
  using assms
proof (induction m arbitrary: k lastErr)
  case 0
  show ?case by simp
next
  case (Suc m)
  have "op k s = Inr (Some err, s)" by (rule Suc.prems) simp_all
  moreover have "ExponentialBackoffExecutor m op (Suc k) (Some err) s =
      Inr (if m = 0 then Some err else Some err, s)"
    by (rule Suc.IH) (simp add: Suc.prems)
  ultimately show ?case by simp
qed

text \<open>
  Claim C6. Let the send of a batch fail on every one of the \<open>maxNumOfSendBatchRetry > 0\<close>
  attempts. Every attempt is \<^verbatim>\<open>sendBatchFunc\<close> on the unchanged worker: it makes the batch
  anew with \<^verbatim>\<open>NewBatch\<close> (counters at zero, a placeholder for every key), returns the
  timeout error and keeps nothing of the callbacks that did land. What an attempt on this
  worker does, whatever happens during it, is the \<^verbatim>\<open>send\<close> of that new batch \<open>b\<close>: its error
  is the error of \<^verbatim>\<open>send\<close>, and only when \<^verbatim>\<open>send\<close> returns \<^verbatim>\<open>nil\<close> the results of the batch
  are merged into the worker; the batch of an attempt holds nothing of the attempts before
  it. The attempts, each the \<^verbatim>\<open>send\<close> of \<open>b\<close> during that attempt, use up the executor, which
  returns the timeout error. After the last attempt
  \<^verbatim>\<open>sendBatchWithRetry\<close> leaves the worker's results as they were, appends the keys of the
  batch to \<^verbatim>\<open>keysWithError\<close> once, and adds their number to \<^verbatim>\<open>numKeysWithErrors\<close> (a
  \<^verbatim>\<open>uint32\<close>: the sum is the sum of naturals as long as it is below \<open>2^32\<close>).
\<close>

theorem C6_exhausted_batch_recorded_once:
  assumes "NewBatch dw startIndex endIndex = Inr b"
    and "0 < maxNumOfSendBatchRetry d"
    and "\<forall>n < nat (maxNumOfSendBatchRetry d). fst (send (env n) b) \<noteq> None"
  shows "\<exists>d'. sendBatchWithRetry env startIndex endIndex (dw, d) = Inr (dw, d') \<and>
           keysWithError d' = keysWithError d @ keys b \<and>
           keys b = take (nat (endIndex - startIndex)) (drop (nat startIndex) (keys dw)) \<and>
           numKeysWithErrors d' = numKeysWithErrors d + word_of_nat (length (keys b)) \<and>
           (unat (numKeysWithErrors d) + length (keys b) < 2 ^ 32 \<longrightarrow>
              unat (numKeysWithErrors d') = unat (numKeysWithErrors d) + length (keys b)) \<and>
           (\<forall>n < nat (maxNumOfSendBatchRetry d).
              sendBatchFunc env startIndex endIndex n dw =
                Inr (Some ''mutation differ batch timed out'', dw)) \<and>
           sourceResultCount b = 0 \<and> targetResultCount b = 0 \<and>
           (\<forall>k \<in> set (keys b).
              sourceResults b k = Some GetResult_zero \<and> targetResults b k = Some GetResult_zero) \<and>
           (\<forall>env' n. sendBatchFunc env' startIndex endIndex n dw =
              (case send (env' n) b of
                 (Some err, b') \<Rightarrow> Inr (Some err, dw)
               | (None, b') \<Rightarrow> Inr (None, mergeResults (batch_at_merge (env' n) b) dw))) \<and>
           (\<forall>n < nat (maxNumOfSendBatchRetry d).
              sendBatchFunc env startIndex endIndex n dw = Inr (fst (send (env n) b), dw)) \<and>
           ExponentialBackoffExecutor (nat (maxNumOfSendBatchRetry d))
               (sendBatchFunc env startIndex endIndex) 0 None dw =
             Inr (Some ''mutation differ batch timed out'', dw)"
proof -
  let ?m = "nat (maxNumOfSendBatchRetry d)"
  let ?timeout = "''mutation differ batch timed out''"
  from assms(1) obtain ks where ks: "go_slice (keys dw) startIndex endIndex = Inr ks"
    and b: "b = \<lparr>keys = ks,
             sourceResults = fold (\<lambda>key m. m(key \<mapsto> GetResult_zero)) ks Map.empty,
             targetResults = fold (\<lambda>key m. m(key \<mapsto> GetResult_zero)) ks Map.empty,
             waitGroup = 0, sourceResultCount = 0, targetResultCount = 0\<rparr>"
    by (auto simp: NewBatch_Inr)
  have attempts: "sendBatchFunc env startIndex endIndex n dw = Inr (Some ?timeout, dw)"
    if "n < ?m" for n
    using sendBatchFunc_fails [OF assms(1)] assms(3) that by blast
  have m: "?m \<noteq> 0" using assms(2) by simp
  have exec: "ExponentialBackoffExecutor ?m (sendBatchFunc env startIndex endIndex) 0 None dw =
      Inr (Some ?timeout, dw)"
    using executor_all_fail [of 0 ?m "sendBatchFunc env startIndex endIndex" dw ?timeout None]
      attempts m by simp
  define d' where "d' = (addKeysWithError ks d)\<lparr>numKeysProcessed :=
      numKeysProcessed (addKeysWithError ks d) + word_of_int (endIndex - startIndex)\<rparr>"
  have run: "sendBatchWithRetry env startIndex endIndex (dw, d) = Inr (dw, d')"
    by (simp add: sendBatchWithRetry_def exec ks d'_def)
  have kb: "keys b = ks" by (simp add: b)
  have errs: "keysWithError d' = keysWithError d @ keys b"
    and cnt: "numKeysWithErrors d' = numKeysWithErrors d + word_of_nat (length (keys b))"
    by (simp_all add: d'_def addKeysWithError_def kb)
  have nat_cnt: "unat (numKeysWithErrors d') = unat (numKeysWithErrors d) + length (keys b)"
    if "unat (numKeysWithErrors d) + length (keys b) < 2 ^ 32"
  proof -
    from that have "length (keys b) < 2 ^ 32" by simp
    then have "unat (word_of_nat (length (keys b)) :: 32 word) = length (keys b)"
      by (simp add: unat_of_nat)
    with that show ?thesis
      by (simp add: cnt unat_word_ariths)
  qed
  have slice: "keys b = take (nat (endIndex - startIndex)) (drop (nat startIndex) (keys dw))"
    using ks kb by (simp add: go_slice_Inr)
  have fresh: "sourceResultCount b = 0" "targetResultCount b = 0"
    "\<forall>k \<in> set (keys b). sourceResults b k = Some GetResult_zero \<and> targetResults b k = Some GetResult_zero"
    by (simp_all add: b fold_placeholders)
  have each: "sendBatchFunc env' startIndex endIndex n dw =
      (case send (env' n) b of
         (Some err, b') \<Rightarrow> Inr (Some err, dw)
       | (None, b') \<Rightarrow> Inr (None, mergeResults (batch_at_merge (env' n) b) dw))" for env' n
    using assms(1) by (simp add: sendBatchFunc_def)
  have by_send: "sendBatchFunc env startIndex endIndex n dw = Inr (fst (send (env n) b), dw)"
    if "n < ?m" for n
  proof -
    from that assms(3) have "fst (send (env n) b) \<noteq> None" by blast
    then have "fst (send (env n) b) = Some ?timeout" by (rule send_error)
    with attempts [OF that] show ?thesis by simp
  qed
  show ?thesis
  proof (rule exI [of _ d'], intro conjI)
    show "sendBatchWithRetry env startIndex endIndex (dw, d) = Inr (dw, d')" by (rule run)
    show "keysWithError d' = keysWithError d @ keys b" by (rule errs)
    show "keys b = take (nat (endIndex - startIndex)) (drop (nat startIndex) (keys dw))"
      by (rule slice)
    show "numKeysWithErrors d' = numKeysWithErrors d + word_of_nat (length (keys b))" by (rule cnt)
    show "unat (numKeysWithErrors d) + length (keys b) < 2 ^ 32 \<longrightarrow>
        unat (numKeysWithErrors d') = unat (numKeysWithErrors d) + length (keys b)"
      using nat_cnt by (rule impI)
    show "\<forall>n < ?m. sendBatchFunc env startIndex endIndex n dw = Inr (Some ?timeout, dw)"
      using attempts by blast
    show "sourceResultCount b = 0" and "targetResultCount b = 0"
      and "\<forall>k \<in> set (keys b).
        sourceResults b k = Some GetResult_zero \<and> targetResults b k = Some GetResult_zero"
      by (rule fresh)+
    show "\<forall>env' n. sendBatchFunc env' startIndex endIndex n dw =
        (case send (env' n) b of
           (Some err, b') \<Rightarrow> Inr (Some err, dw)
         | (None, b') \<Rightarrow> Inr (None, mergeResults (batch_at_merge (env' n) b) dw))"
      using each by blast
    show "\<forall>n < ?m. sendBatchFunc env startIndex endIndex n dw = Inr (fst (send (env n) b), dw)"
      using by_send by blast
    show "ExponentialBackoffExecutor ?m (sendBatchFunc env startIndex endIndex) 0 None dw =
        Inr (Some ?timeout, dw)"
      by (rule exec)
  qed
qed


theorem C6_exhausted_batch_recorded_once_witness:
  "\<exists>d'. sendBatchWithRetry example_timeouts 0 3 (example_worker, example_differ) =
           Inr (example_worker, d') \<and>
         keysWithError d' = [''a3'', ''k1'', ''k2'', ''k3''] \<and>
         numKeysWithErrors d' = 3"
proof -
  obtain b where b: "NewBatch example_worker 0 3 = Inr b" and kb: "keys b = [''k1'', ''k2'', ''k3'']"
    and zero: "waitGroup b = 0" "sourceResultCount b = 0" "targetResultCount b = 0"
    by (simp add: NewBatch_def go_slice_def example_worker_def)
  have retries: "0 < maxNumOfSendBatchRetry example_differ"
    "nat (maxNumOfSendBatchRetry example_differ) = 2"
    by (simp_all add: example_differ_def NewMutationDiffer_def)
  have "fst (send (example_timeouts n) b) \<noteq> None" if "n < 2" for n
  proof -
    from that consider "n = 0" | "n = 1" by linarith
    then show ?thesis
      by cases (simp_all add: send_def example_timeouts_def kb zero Let_def)
  qed
  with retries have "\<forall>n < nat (maxNumOfSendBatchRetry example_differ).
      fst (send (example_timeouts n) b) \<noteq> None"
    by simp
  from C6_exhausted_batch_recorded_once [OF b retries(1) this]
  show ?thesis
    by (auto simp: kb example_differ_def NewMutationDiffer_def)
qed

lemma getCallbackFunc_doms:
  assumes "getCallbackFunc step (b, run) = (b', run')"
    and "dom (sourceResults b) = set (keys b)" and "dom (targetResults b) = set (keys b)"
    and "\<forall>side i. run (side, i) \<noteq> None \<longrightarrow> i < length (keys b)"
  shows "keys b' = keys b \<and> dom (sourceResults b') = set (keys b) \<and>
         dom (targetResults b') = set (keys b) \<and>
         (\<forall>side i. run' (side, i) \<noteq> None \<longrightarrow> i < length (keys b))"
proof (cases step)
  case (Enter isSource i result err)
  show ?thesis
  proof (cases "i < length (keys b) \<and> run (isSource, i) = None")
    case False
    with assms Enter show ?thesis by auto
  next
    case True
    show ?thesis
    proof (cases isSource)
      case True
      with \<open>i < length (keys b) \<and> run (isSource, i) = None\<close> assms(1) Enter
      have "b' = b\<lparr>sourceResultCount := sourceResultCount b + 1\<rparr>"
        and "run' = run((isSource, i) \<mapsto> (sourceResultCount b + 1, result, err))"
        by simp_all
      with assms(2-4) \<open>i < length (keys b) \<and> run (isSource, i) = None\<close> show ?thesis
        by simp
    next
      case False
      with \<open>i < length (keys b) \<and> run (isSource, i) = None\<close> assms(1) Enter
      have "b' = b\<lparr>targetResultCount := targetResultCount b + 1\<rparr>"
        and "run' = run((isSource, i) \<mapsto> (targetResultCount b + 1, result, err))"
        by simp_all
      with assms(2-4) \<open>i < length (keys b) \<and> run (isSource, i) = None\<close> show ?thesis
        by simp
    qed
  qed
next
  case (Leave isSource i)
  show ?thesis
  proof (cases "run (isSource, i)")
    case None
    with assms Leave show ?thesis by auto
  next
    case (Some t)
    obtain newCount result err where t: "t = (newCount, result, err)" by (cases t)
    from Some assms(4) have "i < length (keys b)" by blast
    then have mem: "keys b ! i \<in> set (keys b)" by simp
    from assms(1) Leave Some t
    have k: "keys b' = keys b"
      and s: "dom (sourceResults b') = dom (sourceResults b) \<or>
              dom (sourceResults b') = insert (keys b ! i) (dom (sourceResults b))"
      and tg: "dom (targetResults b') = dom (targetResults b) \<or>
              dom (targetResults b') = insert (keys b ! i) (dom (targetResults b))"
      and r: "run' = run((isSource, i) := None)"
      by (auto simp: Let_def split: if_splits)
    from s tg mem assms(2,3) have "dom (sourceResults b') = set (keys b)"
      "dom (targetResults b') = set (keys b)"
      by (auto simp: insert_absorb)
    with k r assms(4) show ?thesis by simp
  qed
next
  case Signal
  with assms show ?thesis by auto
qed

lemma send_wait_doms:
  assumes "send_wait steps (b, run) = (err, b')"
    and "dom (sourceResults b) = set (keys b)" and "dom (targetResults b) = set (keys b)"
    and "\<forall>side i. run (side, i) \<noteq> None \<longrightarrow> i < length (keys b)"
  shows "keys b' = keys b \<and> dom (sourceResults b') = set (keys b) \<and>
         dom (targetResults b') = set (keys b)"
  using assms
proof (induction steps arbitrary: b run)
  case Nil
  then show ?case by simp
next
  case (Cons step steps)
  obtain b1 run1 where c: "getCallbackFunc step (b, run) = (b1, run1)"
    by (cases "getCallbackFunc step (b, run)")
  note inv = getCallbackFunc_doms [OF c Cons.prems(2-4)]
  show ?case
  proof (cases "step = Signal \<and> waitGroup b = 0")
    case True
    with Cons.prems(1,2,3) show ?thesis by simp
  next
    case False
    with Cons.prems(1) c have "send_wait steps (b1, run1) = (err, b')" by auto
    from Cons.IH [OF this] inv show ?thesis by simp
  qed
qed

lemma NewBatch_doms:
  assumes "NewBatch dw s e = Inr b"
  shows "go_slice (keys dw) s e = Inr (keys b)"
    and "dom (sourceResults b) = set (keys b)" and "dom (targetResults b) = set (keys b)"
  using assms by (auto simp: NewBatch_Inr dom_def fold_placeholders split: if_splits)

lemma send_doms:
  assumes "NewBatch dw s e = Inr b" and "send steps b = (err, b')"
  shows "keys b' = keys b \<and> dom (sourceResults b') = set (keys b) \<and>
         dom (targetResults b') = set (keys b)"
proof -
  let ?b = "b\<lparr>waitGroup := waitGroup b + 2\<rparr>"
  from assms(2) have "send_wait steps (?b, Map.empty) = (err, b')" by (simp add: send_def)
  from send_wait_doms [OF this] NewBatch_doms(2,3) [OF assms(1)] show ?thesis by simp
qed

lemma fold_getCallbackFunc_doms:
  assumes "dom (sourceResults b) = set (keys b)" and "dom (targetResults b) = set (keys b)"
    and "\<forall>side i. run (side, i) \<noteq> None \<longrightarrow> i < length (keys b)"
  shows "dom (sourceResults (fst (fold getCallbackFunc steps (b, run)))) = set (keys b) \<and>
         dom (targetResults (fst (fold getCallbackFunc steps (b, run)))) = set (keys b)"
  using assms
proof (induction steps arbitrary: b run)
  case Nil
  then show ?case by simp
next
  case (Cons step steps)
  obtain b1 run1 where c: "getCallbackFunc step (b, run) = (b1, run1)"
    by (cases "getCallbackFunc step (b, run)")
  from getCallbackFunc_doms [OF c Cons.prems]
  have k: "keys b1 = keys b" and d: "dom (sourceResults b1) = set (keys b1)"
    "dom (targetResults b1) = set (keys b1)"
    "\<forall>side i. run1 (side, i) \<noteq> None \<longrightarrow> i < length (keys b1)"
    by simp_all
  from Cons.IH [OF d] show ?case by (simp add: c k)
qed

lemma batch_at_merge_doms:
  assumes "NewBatch dw s e = Inr b"
  shows "dom (sourceResults (batch_at_merge steps b)) = set (keys b) \<and>
         dom (targetResults (batch_at_merge steps b)) = set (keys b)"
  unfolding batch_at_merge_def
  using fold_getCallbackFunc_doms [of "b\<lparr>waitGroup := waitGroup b + 2\<rparr>" Map.empty steps]
    NewBatch_doms(2,3) [OF assms]
  by simp

lemma sendBatchFunc_cases:
  assumes "go_slice (keys dw) s e = Inr ks"
  shows "sendBatchFunc env s e n dw = Inr (Some ''mutation differ batch timed out'', dw) \<or>
         (\<exists>b'. sendBatchFunc env s e n dw = Inr (None, mergeResults b' dw) \<and>
            dom (sourceResults b') = set ks \<and> dom (targetResults b') = set ks)"
proof -
  from assms obtain b where b: "NewBatch dw s e = Inr b" and kb: "keys b = ks"
    by (auto simp: NewBatch_def)
  obtain err b' where r: "send (env n) b = (err, b')" by (cases "send (env n) b")
  show ?thesis
  proof (cases err)
    case None
    with b r batch_at_merge_doms [OF b, of "env n"] kb show ?thesis
      by (auto simp: sendBatchFunc_def)
  next
    case (Some msg)
    with r have "fst (send (env n) b) \<noteq> None" by simp
    from sendBatchFunc_fails [of dw s e b env n, OF b this] show ?thesis by simp
  qed
qed

lemma executor_cases:
  assumes "\<And>n. op n s = Inr (Some err, s) \<or> (\<exists>s'. op n s = Inr (None, s') \<and> Q s')"
  shows "(m = 0 \<and> ExponentialBackoffExecutor m op k lastErr s = Inr (lastErr, s)) \<or>
         (0 < m \<and> ExponentialBackoffExecutor m op k lastErr s = Inr (Some err, s)) \<or>
         (\<exists>s'. ExponentialBackoffExecutor m op k lastErr s = Inr (None, s') \<and> Q s')"
proof (induction m arbitrary: k lastErr)
  case 0
  show ?case by simp
next
  case (Suc m)
  from assms [of k] show ?case
  proof
    assume f: "op k s = Inr (Some err, s)"
    from Suc [of "Suc k" "Some err"] show ?thesis
      by (auto simp: f)
  next
    assume "\<exists>s'. op k s = Inr (None, s') \<and> Q s'"
    then show ?thesis by auto
  qed
qed

lemma go_slice_word_length:
  assumes "go_slice xs s e = Inr ks"
  shows "(word_of_int e :: 32 word) - word_of_int s = word_of_nat (length ks)"
proof -
  from go_slice_length [OF assms] have "e - s = int (length ks)" by simp
  then have "(word_of_int (e - s) :: 32 word) = word_of_int (int (length ks))" by simp
  then show ?thesis by simp
qed

lemma sendBatchWithRetry_ok:
  assumes "go_slice (keys dw) s e = Inr ks"
    and "ExponentialBackoffExecutor (nat (maxNumOfSendBatchRetry d)) (sendBatchFunc env s e) 0 None dw =
           Inr (None, dw')"
  shows "sendBatchWithRetry env s e (dw, d) = Inr (dw', batch_accounted [] (length ks) d)"
  using assms(2)
  by (simp add: sendBatchWithRetry_def batch_accounted_def go_slice_word_length [OF assms(1)])

lemma sendBatchWithRetry_failed:
  assumes "go_slice (keys dw) s e = Inr ks"
    and "ExponentialBackoffExecutor (nat (maxNumOfSendBatchRetry d)) (sendBatchFunc env s e) 0 None dw =
           Inr (Some msg, dw)"
  shows "sendBatchWithRetry env s e (dw, d) = Inr (dw, batch_accounted ks (length ks) d)"
  using assms(2)
  by (simp add: sendBatchWithRetry_def batch_accounted_def addKeysWithError_def assms(1)
      go_slice_word_length [OF assms(1)])

lemma sendBatchWithRetry_effect:
  assumes "go_slice (keys dw) s e = Inr ks"
  shows "\<exists>dw' errs.
           sendBatchWithRetry env s e (dw, d) = Inr (dw', batch_accounted errs (length ks) d) \<and>
           ((errs = ks \<and> dw' = dw \<and> 0 < maxNumOfSendBatchRetry d) \<or>
            (errs = [] \<and> dw' = dw \<and> maxNumOfSendBatchRetry d \<le> 0) \<or>
            (errs = [] \<and> (\<exists>b'. dw' = mergeResults b' dw \<and>
               dom (sourceResults b') = set ks \<and> dom (targetResults b') = set ks)))"
proof -
  let ?m = "nat (maxNumOfSendBatchRetry d)"
  let ?op = "sendBatchFunc env s e"
  let ?Q = "\<lambda>dw'. \<exists>b'. dw' = mergeResults b' dw \<and>
               dom (sourceResults b') = set ks \<and> dom (targetResults b') = set ks"
  let ?msg = "''mutation differ batch timed out''"
  have op: "?op n dw = Inr (Some ?msg, dw) \<or> (\<exists>s'. ?op n dw = Inr (None, s') \<and> ?Q s')" for n
    using sendBatchFunc_cases [OF assms, of env n] by blast
  have "(?m = 0 \<and> ExponentialBackoffExecutor ?m ?op 0 None dw = Inr (None, dw)) \<or>
        (0 < ?m \<and> ExponentialBackoffExecutor ?m ?op 0 None dw = Inr (Some ?msg, dw)) \<or>
        (\<exists>s'. ExponentialBackoffExecutor ?m ?op 0 None dw = Inr (None, s') \<and> ?Q s')"
    by (rule executor_cases) (rule op)
  then show ?thesis
  proof (elim disjE conjE exE)
    assume m: "?m = 0" and x: "ExponentialBackoffExecutor ?m ?op 0 None dw = Inr (None, dw)"
    from m have "maxNumOfSendBatchRetry d \<le> 0" by simp
    with sendBatchWithRetry_ok [OF assms x] show ?thesis by blast
  next
    assume m: "0 < ?m" and x: "ExponentialBackoffExecutor ?m ?op 0 None dw = Inr (Some ?msg, dw)"
    from m have "0 < maxNumOfSendBatchRetry d" by simp
    with sendBatchWithRetry_failed [OF assms x] show ?thesis by blast
  next
    fix s' b'
    assume x: "ExponentialBackoffExecutor ?m ?op 0 None dw = Inr (None, s')"
      and q: "s' = mergeResults b' dw" "dom (sourceResults b') = set ks"
        "dom (targetResults b') = set ks"
    from sendBatchWithRetry_ok [OF assms x] q show ?thesis by blast
  qed
qed

lemma batch_accounted_nothing: "batch_accounted [] 0 d = d"
  by (simp add: batch_accounted_def)

lemma take_add_slice:
  "take (i + n) ks = take i ks @ take n (drop i ks)"
  by (simp add: take_add)

lemma mergeResults_doms:
  "dom (sourceResults (mergeResults b dw)) = dom (sourceResults dw) \<union> dom (sourceResults b)"
  "dom (targetResults (mergeResults b dw)) = dom (targetResults dw) \<union> dom (targetResults b)"
  "keys (mergeResults b dw) = keys dw"
  by (simp_all add: mergeResults_def Un_commute)

lemma progress_of_simps:
  "progress_of (GetResults i, dw) = nat i"
  "progress_of (Diff, dw) = length (keys dw)"
  "progress_of (Finished, dw) = length (keys dw)"
  by (simp_all add: progress_of_def)

lemma covered_simps:
  "covered (GetResults i, dw) = set (take (nat i) (keys dw))"
  "covered (Diff, dw) = set (keys dw)"
  "covered (Finished, dw) = set (keys dw)"
  by (simp_all add: covered_def progress_of_def)

lemma worker_inv_simps:
  "worker_inv (GetResults i, dw) \<longleftrightarrow>
     dom (sourceResults dw) = dom (targetResults dw) \<and>
     dom (sourceResults dw) \<subseteq> set (take (nat i) (keys dw)) \<and>
     0 \<le> i \<and> i \<le> int (length (keys dw))"
  "worker_inv (Diff, dw) \<longleftrightarrow>
     dom (sourceResults dw) = dom (targetResults dw) \<and> dom (sourceResults dw) \<subseteq> set (keys dw)"
  "worker_inv (Finished, dw) \<longleftrightarrow>
     dom (sourceResults dw) = dom (targetResults dw) \<and> dom (sourceResults dw) \<subseteq> set (keys dw)"
  by (simp_all add: worker_inv_def covered_simps)

text \<open>One turn of the loop of a worker, from a state where the invariant holds.\<close>

lemma getResults_step:
  assumes inv: "worker_inv (GetResults i, dw)" and B: "0 < batchSize d"
  shows "\<exists>at' dw' errs sl.
           worker_step env (GetResults i, dw, d) = Inr (at', dw', batch_accounted errs (length sl) d) \<and>
           at' \<noteq> Finished \<and> keys dw' = keys dw \<and> worker_inv (at', dw') \<and>
           progress_of (at', dw') = progress_of (GetResults i, dw) + length sl \<and>
           covered (at', dw') = covered (GetResults i, dw) \<union> set sl \<and>
           set sl \<subseteq> set (keys dw) \<and>
           (distinct (keys dw) \<longrightarrow> distinct sl \<and> set sl \<inter> covered (GetResults i, dw) = {}) \<and>
           ((errs = sl \<and> dw' = dw \<and> (sl \<noteq> [] \<longrightarrow> 0 < maxNumOfSendBatchRetry d)) \<or>
            (errs = [] \<and> dw' = dw \<and> maxNumOfSendBatchRetry d \<le> 0) \<or>
            (errs = [] \<and> (\<exists>b'. dw' = mergeResults b' dw \<and>
               dom (sourceResults b') = set sl \<and> dom (targetResults b') = set sl)))"
proof -
  let ?L = "int (length (keys dw))"
  let ?B = "batchSize d"
  from inv have i: "0 \<le> i" "i \<le> ?L"
    and doms: "dom (sourceResults dw) = dom (targetResults dw)"
    and sub: "dom (sourceResults dw) \<subseteq> set (take (nat i) (keys dw))"
    by (auto simp: worker_inv_simps)
  show ?thesis
  proof (cases "?L \<le> i")
    case True
    with i have il: "nat i = length (keys dw)" by simp
    have step: "worker_step env (GetResults i, dw, d) = Inr (Diff, dw, batch_accounted [] (length ([]::string list)) d)"
      using True by (simp add: worker_step_def getResults_iteration_def batch_accounted_nothing)
    have "worker_inv (Diff, dw)"
      using doms sub il by (simp add: worker_inv_simps)
    moreover have "progress_of (Diff, dw) = progress_of (GetResults i, dw) + length ([]::string list)"
      using il by (simp add: progress_of_simps)
    moreover have "covered (Diff, dw) = covered (GetResults i, dw) \<union> set ([]::string list)"
      using il by (simp add: covered_simps)
    ultimately show ?thesis
      using step by (intro exI [of _ Diff] exI [of _ dw] exI [of _ "[]"]) simp
  next
    case False
    define e where "e = (if i + ?B < ?L then i + ?B else ?L)"
    define at' where "at' = (if i + ?B < ?L then GetResults (i + ?B) else Diff)"
    define sl where "sl = take (nat (e - i)) (drop (nat i) (keys dw))"
    from False i B have e: "i < e" "e \<le> ?L" by (simp_all add: e_def)
    have slice: "go_slice (keys dw) i e = Inr sl"
      using i e by (simp add: go_slice_def sl_def)
    have len_sl: "length sl = nat (e - i)"
      using i e by (simp add: sl_def)
    have nat_e: "nat e = nat i + length sl"
      using i e len_sl by simp
    from sendBatchWithRetry_effect [OF slice, of "env i" d]
    obtain dw' errs where run: "sendBatchWithRetry (env i) i e (dw, d) =
        Inr (dw', batch_accounted errs (length sl) d)"
      and alt: "(errs = sl \<and> dw' = dw \<and> 0 < maxNumOfSendBatchRetry d) \<or>
            (errs = [] \<and> dw' = dw \<and> maxNumOfSendBatchRetry d \<le> 0) \<or>
            (errs = [] \<and> (\<exists>b'. dw' = mergeResults b' dw \<and>
               dom (sourceResults b') = set sl \<and> dom (targetResults b') = set sl))"
      by blast
    have step: "worker_step env (GetResults i, dw, d) = Inr (at', dw', batch_accounted errs (length sl) d)"
      using False run
      by (cases "i + ?B < ?L") (simp_all add: worker_step_def getResults_iteration_def e_def at'_def)
    have keys': "keys dw' = keys dw"
      using alt by (auto simp: mergeResults_doms)
    have prog: "progress_of (at', dw') = nat e"
      using e i keys' by (simp add: progress_of_simps at'_def e_def)
    have take_e: "take (nat e) (keys dw) = take (nat i) (keys dw) @ sl"
    proof -
      have "nat e = nat i + nat (e - i)" using i e by simp
      then have "take (nat e) (keys dw) = take (nat i + nat (e - i)) (keys dw)" by simp
      also have "\<dots> = take (nat i) (keys dw) @ take (nat (e - i)) (drop (nat i) (keys dw))"
        by (rule take_add_slice)
      finally show ?thesis by (simp add: sl_def)
    qed
    have cov: "covered (at', dw') = covered (GetResults i, dw) \<union> set sl"
      using prog keys' take_e by (simp add: covered_def progress_of_simps)
    have doms': "dom (sourceResults dw') = dom (targetResults dw')"
      and sub': "dom (sourceResults dw') \<subseteq> dom (sourceResults dw) \<union> set sl"
    proof -
      from alt consider "dw' = dw"
        | b' where "dw' = mergeResults b' dw" "dom (sourceResults b') = set sl"
            "dom (targetResults b') = set sl"
        by blast
      then have "dom (sourceResults dw') = dom (targetResults dw') \<and>
          dom (sourceResults dw') \<subseteq> dom (sourceResults dw) \<union> set sl"
      proof cases
        case 1
        with doms show ?thesis by simp
      next
        case 2
        with doms show ?thesis by (simp add: mergeResults_doms)
      qed
      then show "dom (sourceResults dw') = dom (targetResults dw')"
        and "dom (sourceResults dw') \<subseteq> dom (sourceResults dw) \<union> set sl"
        by blast+
    qed
    have inv': "worker_inv (at', dw')"
    proof -
      have c: "dom (sourceResults dw') \<subseteq> covered (at', dw')"
        using sub' sub cov by (auto simp: covered_simps)
      show ?thesis
      proof (cases "i + ?B < ?L")
        case True
        with c doms' i B keys' show ?thesis
          by (simp add: at'_def worker_inv_simps covered_simps)
      next
        case False
        with c doms' show ?thesis
          by (simp add: at'_def worker_inv_simps covered_simps keys')
      qed
    qed
    have subset: "set sl \<subseteq> set (keys dw)"
      unfolding sl_def by (meson in_set_dropD in_set_takeD subsetI)
    have dist: "distinct sl \<and> set sl \<inter> covered (GetResults i, dw) = {}" if "distinct (keys dw)"
    proof -
      from that have "distinct (take (nat e) (keys dw))" by simp
      then show ?thesis
        unfolding take_e by (auto simp: covered_simps)
    qed
    have "at' \<noteq> Finished" by (simp add: at'_def)
    moreover have "progress_of (at', dw') = progress_of (GetResults i, dw) + length sl"
      using prog nat_e by (simp add: progress_of_simps)
    moreover have "(errs = sl \<and> dw' = dw \<and> (sl \<noteq> [] \<longrightarrow> 0 < maxNumOfSendBatchRetry d)) \<or>
            (errs = [] \<and> dw' = dw \<and> maxNumOfSendBatchRetry d \<le> 0) \<or>
            (errs = [] \<and> (\<exists>b'. dw' = mergeResults b' dw \<and>
               dom (sourceResults b') = set sl \<and> dom (targetResults b') = set sl))"
      using alt by blast
    ultimately show ?thesis
      using step keys' inv' cov subset dist by blast
  qed
qed

lemma diff_range_no_entry:
  "diff_range dw order acc = Inr r \<Longrightarrow> sourceResults dw k = None \<Longrightarrow>
   missingFromSource r k = missingFromSource acc k \<and>
   missingFromTarget r k = missingFromTarget acc k \<and>
   diff r k = diff acc k"
proof (induction order arbitrary: acc)
  case Nil
  then show ?case by simp
next
  case (Cons key rest)
  show ?case
  proof (cases "sourceResults dw key")
    case None
    with Cons show ?thesis by simp
  next
    case (Some sr)
    with Cons.prems obtain acc' where it: "diff_iteration dw key sr acc = Inr acc'"
      and rest: "diff_range dw rest acc' = Inr r"
      by (auto split: sum.splits)
    from Some Cons.prems(2) have "k \<noteq> key" by auto
    with Cons.IH [OF rest Cons.prems(2)] diff_iteration_other [OF it] show ?thesis by simp
  qed
qed

lemma diff_local_doms:
  assumes "diff_local dw order = Inr l"
  shows "dom (missingFromSource l) \<subseteq> dom (sourceResults dw)"
    and "dom (missingFromTarget l) \<subseteq> dom (sourceResults dw)"
    and "dom (diff l) \<subseteq> dom (sourceResults dw)"
proof -
  have none: "missingFromSource l k = None \<and> missingFromTarget l k = None \<and> diff l k = None"
    if "sourceResults dw k = None" for k
    using diff_range_no_entry [OF assms [unfolded diff_local_def] that]
    by (simp add: DiffMaps_empty_def)
  show "dom (missingFromSource l) \<subseteq> dom (sourceResults dw)"
    and "dom (missingFromTarget l) \<subseteq> dom (sourceResults dw)"
    and "dom (diff l) \<subseteq> dom (sourceResults dw)"
    using none by (force simp: dom_def)+
qed

lemma diff_step:
  assumes "worker_inv (Diff, dw)"
  shows "\<exists>l. diff_local dw (remdups (keys dw)) = Inr l \<and>
           worker_step env (Diff, dw, d) = Inr (Finished, dw, addDiff l d)"
proof -
  from assms have "dom (sourceResults dw) \<subseteq> dom (targetResults dw)"
    by (simp add: worker_inv_simps)
  from diff_range_total [OF this] obtain l where "diff_local dw (remdups (keys dw)) = Inr l"
    unfolding diff_local_def by blast
  then show ?thesis
    by (simp add: worker_step_def DifferWorker_diff_def)
qed

lemma finished_step: "worker_step env (Finished, dw, d) = Inr (Finished, dw, d)"
  by (simp add: worker_step_def)

lemma run_workers_invariant:
  assumes "P (ws, d)"
    and "\<And>ws d w. P (ws, d) \<Longrightarrow> w < length ws \<Longrightarrow>
           \<exists>at dw d'. worker_step (env w) (fst (ws ! w), snd (ws ! w), d) = Inr (at, dw, d') \<and>
             P (ws[w := (at, dw)], d')"
  shows "\<exists>ws' d'. run_workers env schedule (ws, d) = Inr (ws', d') \<and> P (ws', d')"
  using assms(1)
proof (induction schedule arbitrary: ws d)
  case Nil
  then show ?case by simp
next
  case (Cons w schedule)
  show ?case
  proof (cases "w < length ws")
    case False
    with Cons show ?thesis by simp
  next
    case True
    from assms(2) [OF Cons.prems True] obtain at dw d'
      where step: "worker_step (env w) (fst (ws ! w), snd (ws ! w), d) = Inr (at, dw, d')"
        and P: "P (ws[w := (at, dw)], d')"
      by blast
    from Cons.IH [OF P] True step show ?thesis by simp
  qed
qed

lemma sum_list_progress_update:
  "w < length ws \<Longrightarrow> f x = f (ws ! w) + n \<Longrightarrow>
   sum_list (map f (ws[w := x])) = sum_list (map f ws) + (n::nat)"
proof (induction ws arbitrary: w)
  case Nil
  then show ?case by simp
next
  case (Cons a ws)
  then show ?case by (cases w) simp_all
qed

lemma list_all_update:
  "list_all P ws \<Longrightarrow> P x \<Longrightarrow> list_all P (ws[w := x])"
  by (metis (no_types, lifting) list_all_iff insert_iff set_update_subset_insert subsetD)

lemma map_keys_update:
  "w < length ws \<Longrightarrow> f x = f (ws ! w) \<Longrightarrow> map f (ws[w := x]) = map f ws"
  by (simp add: map_update list_update_same_conv)

lemma batch_accounted_simps:
  "batchSize (batch_accounted errs n d) = batchSize d"
  "maxNumOfSendBatchRetry (batch_accounted errs n d) = maxNumOfSendBatchRetry d"
  "numKeysProcessed (batch_accounted errs n d) = numKeysProcessed d + word_of_nat n"
  "keysWithError (batch_accounted errs n d) = keysWithError d @ errs"
  "missingFromSource (batch_accounted errs n d) = missingFromSource d"
  "missingFromTarget (batch_accounted errs n d) = missingFromTarget d"
  "diff (batch_accounted errs n d) = diff d"
  by (simp_all add: batch_accounted_def)

lemma addDiff_simps:
  "batchSize (addDiff l d) = batchSize d"
  "maxNumOfSendBatchRetry (addDiff l d) = maxNumOfSendBatchRetry d"
  "numKeysProcessed (addDiff l d) = numKeysProcessed d"
  "keysWithError (addDiff l d) = keysWithError d"
  "missingFromSource (addDiff l d) = missingFromSource d ++ missingFromSource l"
  "missingFromTarget (addDiff l d) = missingFromTarget d ++ missingFromTarget l"
  "diff (addDiff l d) = diff d ++ diff l"
  by (simp_all add: addDiff_def)

lemma counted_inv_step:
  assumes inv: "counted_inv kss B p (ws, d)" and B: "0 < B" and w: "w < length ws"
  shows "\<exists>at dw d'. worker_step (env w) (fst (ws ! w), snd (ws ! w), d) = Inr (at, dw, d') \<and>
           counted_inv kss B p (ws[w := (at, dw)], d')"
proof -
  obtain at0 dw0 where w0: "ws ! w = (at0, dw0)" by (cases "ws ! w")
  from inv have all: "list_all worker_inv ws" and ks: "map (\<lambda>w. keys (snd w)) ws = kss"
    and bs: "batchSize d = B"
    and cnt: "numKeysProcessed d = p + word_of_nat (sum_list (map progress_of ws))"
    by (simp_all add: counted_inv_def)
  from all w w0 have winv: "worker_inv (at0, dw0)"
    by (metis list_all_length)
  show ?thesis
  proof (cases at0)
    case (GetResults i)
    from winv GetResults have winv': "worker_inv (GetResults i, dw0)" by simp
    from B bs have B': "0 < batchSize d" by simp
    from getResults_step [OF winv' B', of "env w"]
    obtain at' dw' errs and sl :: "string list" where
      step: "worker_step (env w) (GetResults i, dw0, d) = Inr (at', dw', batch_accounted errs (length sl) d)"
      and k: "keys dw' = keys dw0" and inv': "worker_inv (at', dw')"
      and pr: "progress_of (at', dw') = progress_of (GetResults i, dw0) + length sl"
      by blast
    have "counted_inv kss B p (ws[w := (at', dw')], batch_accounted errs (length sl) d)"
      using all inv' ks k w w0 bs cnt pr GetResults
      by (simp add: counted_inv_def list_all_update map_keys_update batch_accounted_simps
          sum_list_progress_update [where n = "length sl"])
    with step w0 GetResults show ?thesis by auto
  next
    case Diff
    from winv Diff have winv': "worker_inv (Diff, dw0)" by simp
    from diff_step [OF winv', of "env w" d] obtain l
      where step: "worker_step (env w) (Diff, dw0, d) = Inr (Finished, dw0, addDiff l d)"
      by blast
    from winv' have inv': "worker_inv (Finished, dw0)" by (auto simp: worker_inv_simps)
    have "progress_of (Finished, dw0) = progress_of (ws ! w) + 0"
      using w0 Diff by (simp add: progress_of_simps)
    then have "counted_inv kss B p (ws[w := (Finished, dw0)], addDiff l d)"
      using all inv' ks w w0 bs cnt
      by (simp add: counted_inv_def list_all_update map_keys_update addDiff_simps
          sum_list_progress_update [where n = 0])
    with step w0 Diff show ?thesis by auto
  next
    case Finished
    with w0 w have "ws[w := (Finished, dw0)] = ws" by (metis list_update_id)
    with inv w0 Finished show ?thesis by (simp add: finished_step)
  qed
qed

lemma load_ranges_le: "load_ranges lo N dist \<Longrightarrow> lo \<le> N"
  by (induction lo N dist rule: load_ranges.induct) auto

text \<open>The workers that \<open>launch\<close> makes hold the key list, cut at the ranges.\<close>

lemma launch_ranges:
  assumes "load_ranges lo (int (length diffKeys)) (drop i dist)" and "0 \<le> lo"
  shows "\<exists>dws. launch diffKeys dist [i..<length dist] = Inr dws \<and>
           concat (map keys dws) = drop (nat lo) diffKeys \<and>
           list_all (\<lambda>dw. sourceResults dw = Map.empty \<and> targetResults dw = Map.empty) dws"
  using assms
proof (induction "length dist - i" arbitrary: i lo)
  case 0
  then have "[i..<length dist] = []" and "drop i dist = []" by simp_all
  with "0.prems" show ?case by simp
next
  case (Suc n)
  then have i: "i < length dist" by simp
  then have upt: "[i..<length dist] = i # [Suc i..<length dist]"
    by (simp add: upt_conv_Cons)
  obtain l h where lh: "dist ! i = (l, h)" by (cases "dist ! i")
  from i lh have "drop i dist = (l, h) # drop (Suc i) dist"
    by (simp add: Cons_nth_drop_Suc [symmetric])
  with Suc.prems(1) have l: "l = lo" "l \<le> h"
    and rest: "load_ranges h (int (length diffKeys)) (drop (Suc i) dist)"
    by simp_all
  from load_ranges_le [OF rest] have hN: "h \<le> int (length diffKeys)" .
  from l Suc.prems(2) have h0: "0 \<le> h" by simp
  from Suc.hyps(2) have n: "n = length dist - Suc i" by simp
  from Suc.hyps(1) [OF n rest h0] obtain dws
    where run: "launch diffKeys dist [Suc i..<length dist] = Inr dws"
      and cat: "concat (map keys dws) = drop (nat h) diffKeys"
      and emp: "list_all (\<lambda>dw. sourceResults dw = Map.empty \<and> targetResults dw = Map.empty) dws"
    by blast
  show ?case
  proof (cases "l = h")
    case True
    with run cat emp i lh l show ?thesis
      by (simp add: upt)
  next
    case False
    let ?ks = "take (nat (h - l)) (drop (nat l) diffKeys)"
    have slice: "go_slice diffKeys l h = Inr ?ks"
      using l hN Suc.prems(2) by (simp add: go_slice_def)
    have "nat h = nat (h - l) + nat l" using l Suc.prems(2) by simp
    then have "drop (nat h) diffKeys = drop (nat (h - l)) (drop (nat l) diffKeys)" by simp
    then have "?ks @ drop (nat h) diffKeys = drop (nat l) diffKeys"
      by (simp only: append_take_drop_id)
    with run cat emp i lh l False slice show ?thesis
      by (simp add: upt NewDifferWorker_def)
  qed
qed

lemma launch_contract:
  assumes "BalanceLoad_contract W (int (length diffKeys)) dist"
  shows "\<exists>dws. launch diffKeys dist [0..<nat W] = Inr dws \<and> concat (map keys dws) = diffKeys \<and>
           list_all (\<lambda>dw. sourceResults dw = Map.empty \<and> targetResults dw = Map.empty) dws"
proof -
  from assms have W: "nat W = length dist" and r: "load_ranges 0 (int (length diffKeys)) (drop 0 dist)"
    by (auto simp: BalanceLoad_contract_def)
  from launch_ranges [OF r] show ?thesis by (simp add: W)
qed

lemma counted_inv_init:
  assumes "list_all (\<lambda>dw. sourceResults dw = Map.empty \<and> targetResults dw = Map.empty) dws"
  shows "counted_inv (map keys dws) (batchSize d) (numKeysProcessed d)
           (map (\<lambda>dw. (GetResults 0, dw)) dws, d)"
proof -
  have "list_all worker_inv (map (\<lambda>dw. (GetResults 0, dw)) dws)"
    using assms by (induction dws) (simp_all add: worker_inv_simps)
  moreover have "sum_list (map progress_of (map (\<lambda>dw. (GetResults 0, dw)) dws)) = 0"
    by (induction dws) (simp_all add: progress_of_simps)
  ultimately show ?thesis
    by (simp add: counted_inv_def comp_def progress_of_simps)
qed

lemma finished_progress:
  "list_all (\<lambda>w. fst w = Finished) ws \<Longrightarrow>
   sum_list (map progress_of ws) = length (concat (map (\<lambda>w. keys (snd w)) ws))"
proof (induction ws)
  case Nil
  show ?case by simp
next
  case (Cons w ws)
  obtain at dw where "w = (at, dw)" by (cases w)
  with Cons show ?case by (simp add: progress_of_simps)
qed

lemma run_counted:
  assumes "BalanceLoad_contract (numberOfWorkers d) (int (length diffKeys)) loadDistribution"
    and "0 < batchSize d"
  shows "\<exists>dws ws d'.
           launch diffKeys loadDistribution [0..<nat (numberOfWorkers d)] = Inr dws \<and>
           concat (map keys dws) = diffKeys \<and>
           run_workers env schedule (map (\<lambda>dw. (GetResults 0, dw)) dws, d) = Inr (ws, d') \<and>
           counted_inv (map keys dws) (batchSize d) (numKeysProcessed d) (ws, d')"
proof -
  from launch_contract [OF assms(1)] obtain dws
    where l: "launch diffKeys loadDistribution [0..<nat (numberOfWorkers d)] = Inr dws"
      and c: "concat (map keys dws) = diffKeys"
      and e: "list_all (\<lambda>dw. sourceResults dw = Map.empty \<and> targetResults dw = Map.empty) dws"
    by blast
  let ?P = "counted_inv (map keys dws) (batchSize d) (numKeysProcessed d)"
  have "\<exists>ws' d'. run_workers env schedule (map (\<lambda>dw. (GetResults 0, dw)) dws, d) = Inr (ws', d') \<and>
      ?P (ws', d')"
  proof (rule run_workers_invariant)
    show "?P (map (\<lambda>dw. (GetResults 0, dw)) dws, d)"
      by (rule counted_inv_init [OF e])
  next
    fix ws d0 w
    assume inv: "?P (ws, d0)" and w: "w < length ws"
    show "\<exists>at dw d'. worker_step (env w) (fst (ws ! w), snd (ws ! w), d0) = Inr (at, dw, d') \<and>
        ?P (ws[w := (at, dw)], d')"
      by (rule counted_inv_step [OF inv assms(2) w])
  qed
  with l c show ?thesis by blast
qed

text \<open>
  Claim C4. Let \<^verbatim>\<open>utils.BalanceLoad\<close> return ranges that make up the key list, and let the
  batch size be positive. Whatever the store client does and however the steps of the
  workers interleave, no worker panics, and when all workers have finished (the wait of
  \<^verbatim>\<open>Run\<close> returns) \<^verbatim>\<open>numKeysProcessed\<close> has grown by the number of the candidate keys:
  it is that number, as a \<^verbatim>\<open>uint32\<close>, when it started at zero. Every call of
  \<^verbatim>\<open>sendBatchWithRetry\<close> on a valid range returns and adds the number of keys of the batch
  to the counter, whether the send succeeded or the attempts were used up. The batches that
  the loop of \<^verbatim>\<open>getResults\<close> forms for a key slice, put one after the other, are the key
  slice.
\<close>

theorem C4_processed_counts_every_key:
  assumes "BalanceLoad_contract (numberOfWorkers d) (int (length diffKeys)) loadDistribution"
    and "0 < batchSize d"
  shows "(Run_workers env schedule diffKeys loadDistribution d = None \<or>
          (\<exists>ws d'. Run_workers env schedule diffKeys loadDistribution d = Some (Inr (ws, d')) \<and>
             numKeysProcessed d' = numKeysProcessed d + word_of_nat (length diffKeys) \<and>
             (numKeysProcessed d = 0 \<and> length diffKeys < 2 ^ 32 \<longrightarrow>
                unat (numKeysProcessed d') = length diffKeys))) \<and>
         (\<forall>dw startIndex endIndex ks attempts d0.
            go_slice (keys dw) startIndex endIndex = Inr ks \<longrightarrow>
            (\<exists>dw' d1. sendBatchWithRetry attempts startIndex endIndex (dw, d0) = Inr (dw', d1) \<and>
               numKeysProcessed d1 = numKeysProcessed d0 + word_of_nat (length ks))) \<and>
         (\<forall>ks :: string list. \<exists>batches.
            getResults_batches (batchSize d) (int (length ks)) = Some (Inr batches) \<and>
            concat (map (\<lambda>(s, e). take (nat (e - s)) (drop (nat s) ks)) batches) = ks)"
proof
  from run_counted [OF assms, of env schedule] obtain dws ws d'
    where l: "launch diffKeys loadDistribution [0..<nat (numberOfWorkers d)] = Inr dws"
      and c: "concat (map keys dws) = diffKeys"
      and r: "run_workers env schedule (map (\<lambda>dw. (GetResults 0, dw)) dws, d) = Inr (ws, d')"
      and inv: "counted_inv (map keys dws) (batchSize d) (numKeysProcessed d) (ws, d')"
    by blast
  show "Run_workers env schedule diffKeys loadDistribution d = None \<or>
          (\<exists>ws d'. Run_workers env schedule diffKeys loadDistribution d = Some (Inr (ws, d')) \<and>
             numKeysProcessed d' = numKeysProcessed d + word_of_nat (length diffKeys) \<and>
             (numKeysProcessed d = 0 \<and> length diffKeys < 2 ^ 32 \<longrightarrow>
                unat (numKeysProcessed d') = length diffKeys))"
  proof (cases "list_all (\<lambda>w. fst w = Finished) ws")
    case False
    with l r show ?thesis by (simp add: Run_workers_def)
  next
    case True
    with l r have run: "Run_workers env schedule diffKeys loadDistribution d = Some (Inr (ws, d'))"
      by (simp add: Run_workers_def)
    from inv have ks: "map (\<lambda>w. keys (snd w)) ws = map keys dws"
      and cnt: "numKeysProcessed d' = numKeysProcessed d + word_of_nat (sum_list (map progress_of ws))"
      by (simp_all add: counted_inv_def)
    from finished_progress [OF True] ks c
    have "sum_list (map progress_of ws) = length diffKeys" by simp
    with cnt have word: "numKeysProcessed d' = numKeysProcessed d + word_of_nat (length diffKeys)"
      by simp
    have "unat (numKeysProcessed d') = length diffKeys"
      if "numKeysProcessed d = 0" "length diffKeys < 2 ^ 32"
      using that word by (simp add: unat_of_nat)
    with run word show ?thesis by blast
  qed
next
  have each: "\<forall>dw startIndex endIndex ks attempts d0.
            go_slice (keys dw) startIndex endIndex = Inr ks \<longrightarrow>
            (\<exists>dw' d1. sendBatchWithRetry attempts startIndex endIndex (dw, d0) = Inr (dw', d1) \<and>
               numKeysProcessed d1 = numKeysProcessed d0 + word_of_nat (length ks))"
  proof (intro allI impI)
    fix dw :: DifferWorker and startIndex endIndex ks attempts d0
    assume "go_slice (keys dw) startIndex endIndex = Inr ks"
    from sendBatchWithRetry_effect [OF this, of attempts d0]
    show "\<exists>dw' d1. sendBatchWithRetry attempts startIndex endIndex (dw, d0) = Inr (dw', d1) \<and>
               numKeysProcessed d1 = numKeysProcessed d0 + word_of_nat (length ks)"
      by (auto simp: batch_accounted_simps)
  qed
  have split: "\<forall>ks :: string list. \<exists>batches.
            getResults_batches (batchSize d) (int (length ks)) = Some (Inr batches) \<and>
            concat (map (\<lambda>(s, e). take (nat (e - s)) (drop (nat s) ks)) batches) = ks"
  proof
    fix ks :: "string list"
    let ?bs = "consecutive_batches (batchSize d) (int (length ks)) 0"
    from loop_record [OF assms(2), of "int (length ks)" 0 "[]"]
    have "getResults_batches (batchSize d) (int (length ks)) = Some (Inr ?bs)"
      by (simp add: getResults_batches_def)
    moreover from consecutive_batches_concat [OF assms(2), of 0 ks]
    have "concat (map (\<lambda>(s, e). take (nat (e - s)) (drop (nat s) ks)) ?bs) = ks" by simp
    ultimately show "\<exists>batches.
            getResults_batches (batchSize d) (int (length ks)) = Some (Inr batches) \<and>
            concat (map (\<lambda>(s, e). take (nat (e - s)) (drop (nat s) ks)) batches) = ks"
      by blast
  qed
  from each split show "(\<forall>dw startIndex endIndex ks attempts d0.
            go_slice (keys dw) startIndex endIndex = Inr ks \<longrightarrow>
            (\<exists>dw' d1. sendBatchWithRetry attempts startIndex endIndex (dw, d0) = Inr (dw', d1) \<and>
               numKeysProcessed d1 = numKeysProcessed d0 + word_of_nat (length ks))) \<and>
         (\<forall>ks :: string list. \<exists>batches.
            getResults_batches (batchSize d) (int (length ks)) = Some (Inr batches) \<and>
            concat (map (\<lambda>(s, e). take (nat (e - s)) (drop (nat s) ks)) batches) = ks)"
    by (rule conjI)
qed

lemma example_launch:
  "launch example_candidates [(0, 2), (2, 3)] [0..<nat (numberOfWorkers (NewMutationDiffer 2 2 1))] =
     Inr [NewDifferWorker [''a'', ''b''], NewDifferWorker [''c'']]"
proof -
  have "[0..<nat 2] = [0, 1]" by (simp add: upt_rec)
  then show ?thesis
    by (simp add: NewMutationDiffer_def example_candidates_def go_slice_def)
qed

lemma example_step_0:
  "worker_step (example_env 0) (GetResults 0, NewDifferWorker [''a'', ''b''], NewMutationDiffer 2 2 1) =
     Inr (Diff, NewDifferWorker [''a'', ''b''],
          batch_accounted [''a'', ''b''] 2 (NewMutationDiffer 2 2 1))"
  by (simp add: worker_step_def getResults_iteration_def NewDifferWorker_def NewMutationDiffer_def
      sendBatchWithRetry_def sendBatchFunc_def batch_at_merge_def NewBatch_def go_slice_def send_def example_env_def
      addKeysWithError_def batch_accounted_def)


lemma example_run:
  "\<exists>ws d'. Run_workers example_env [0, 1, 1, 0] example_candidates [(0, 2), (2, 3)]
       (NewMutationDiffer 2 2 1) = Some (Inr (ws, d')) \<and>
     keysWithError d' = [''a'', ''b''] \<and>
     missingFromTarget d' ''c'' = Some (Some example_doc)"
  by (simp add: Run_workers_def example_launch)
    (simp add: NewMutationDiffer_def example_env_def
      NewDifferWorker_def go_slice_def worker_step_def getResults_iteration_def
      sendBatchWithRetry_def sendBatchFunc_def batch_at_merge_def NewBatch_def send_def mergeResults_def
      addKeysWithError_def DifferWorker_diff_def diff_local_def diff_iteration_def
      DiffMaps_empty_def addDiff_def isKeyNotFoundError_def KeyNotFoundErrMsg_def Let_def)

theorem C4_processed_counts_every_key_witness:
  "\<exists>ws d'. Run_workers example_env [0, 1, 1, 0] example_candidates [(0, 2), (2, 3)]
       (NewMutationDiffer 2 2 1) = Some (Inr (ws, d')) \<and>
     unat (numKeysProcessed d') = 3"
proof -
  have c: "BalanceLoad_contract (numberOfWorkers (NewMutationDiffer 2 2 1))
      (int (length example_candidates)) [(0, 2), (2, 3)]"
    by (simp add: BalanceLoad_contract_def NewMutationDiffer_def example_candidates_def)
  have b: "0 < batchSize (NewMutationDiffer 2 2 1)"
    by (simp add: NewMutationDiffer_def)
  from example_run obtain ws d' where "Run_workers example_env [0, 1, 1, 0] example_candidates
      [(0, 2), (2, 3)] (NewMutationDiffer 2 2 1) = Some (Inr (ws, d'))"
    by blast
  with C4_processed_counts_every_key [OF c b, of example_env "[0, 1, 1, 0]"]
  show ?thesis
    by (auto simp: NewMutationDiffer_def example_candidates_def)
qed

lemma diff_at_visited:
  assumes "distinct order" and "k \<in> set order"
    and "dom (sourceResults dw) \<subseteq> dom (targetResults dw)"
    and "sourceResults dw k = Some sr" and "targetResults dw k = Some tr"
  shows "diff_at dw order k =
     Inr (if Key sr \<noteq> [] \<and> Key tr \<noteq> [] \<and> isKeyNotFoundError (Error sr) \<and> \<not> isKeyNotFoundError (Error tr)
            then Some (Result tr) else None,
          if Key sr \<noteq> [] \<and> Key tr \<noteq> [] \<and> \<not> isKeyNotFoundError (Error sr) \<and> isKeyNotFoundError (Error tr)
            then Some (Result sr) else None,
          if Key sr \<noteq> [] \<and> Key tr \<noteq> [] \<and> isKeyNotFoundError (Error sr) = isKeyNotFoundError (Error tr) \<and>
               \<not> areGetResultsTheSame (Result sr) (Result tr)
            then Some [Result sr, Result tr] else None)"
proof -
  from diff_range_total [OF assms(3)] obtain r where r: "diff_range dw order DiffMaps_empty = Inr r"
    by blast
  from diff_range_at [OF r assms(1,2,4)]
  obtain a a' where it: "diff_iteration dw k sr a = Inr a'"
    and a: "missingFromSource a k = None" "missingFromTarget a k = None" "diff a k = None"
    and r': "missingFromSource r k = missingFromSource a' k"
      "missingFromTarget r k = missingFromTarget a' k" "diff r k = diff a' k"
    by (auto simp: DiffMaps_empty_def)
  from it a r' assms(5) have
    "missingFromSource r k =
       (if Key sr \<noteq> [] \<and> Key tr \<noteq> [] \<and> isKeyNotFoundError (Error sr) \<and> \<not> isKeyNotFoundError (Error tr)
        then Some (Result tr) else None)"
    "missingFromTarget r k =
       (if Key sr \<noteq> [] \<and> Key tr \<noteq> [] \<and> \<not> isKeyNotFoundError (Error sr) \<and> isKeyNotFoundError (Error tr)
        then Some (Result sr) else None)"
    "diff r k =
       (if Key sr \<noteq> [] \<and> Key tr \<noteq> [] \<and> isKeyNotFoundError (Error sr) = isKeyNotFoundError (Error tr) \<and>
           \<not> areGetResultsTheSame (Result sr) (Result tr)
        then Some [Result sr, Result tr] else None)"
    by (auto simp: diff_iteration_def split: if_splits)
  with r show ?thesis by (simp add: diff_at_def diff_local_def)
qed

lemma diff_at_no_entry:
  assumes "dom (sourceResults dw) \<subseteq> dom (targetResults dw)" and "sourceResults dw k = None"
  shows "diff_at dw order k = Inr (None, None, None)"
proof -
  from diff_range_total [OF assms(1)] obtain r where r: "diff_range dw order DiffMaps_empty = Inr r"
    by blast
  from diff_range_no_entry [OF r assms(2)] r show ?thesis
    by (simp add: diff_at_def diff_local_def DiffMaps_empty_def)
qed

text \<open>
  What \<^verbatim>\<open>diff\<close> leaves in the maps does not depend on the order in which the entries are
  visited.
\<close>

lemma diff_at_order:
  assumes "dom (sourceResults dw) \<subseteq> dom (targetResults dw)"
    and "distinct o1" and "dom (sourceResults dw) \<subseteq> set o1"
    and "distinct o2" and "dom (sourceResults dw) \<subseteq> set o2"
  shows "diff_at dw o1 k = diff_at dw o2 k"
proof (cases "sourceResults dw k")
  case None
  with diff_at_no_entry [OF assms(1)] show ?thesis by simp
next
  case (Some sr)
  with assms(1) obtain tr where tr: "targetResults dw k = Some tr" by blast
  from Some assms(3,5) have "k \<in> set o1" "k \<in> set o2" by blast+
  with diff_at_visited [OF assms(2) _ assms(1) Some tr] diff_at_visited [OF assms(4) _ assms(1) Some tr]
  show ?thesis by simp
qed

lemma diff_local_order:
  assumes "dom (sourceResults dw) \<subseteq> dom (targetResults dw)"
    and "dom (sourceResults dw) \<subseteq> set (keys dw)"
    and "range_order (sourceResults dw) order"
  shows "diff_local dw (remdups (keys dw)) = diff_local dw order"
proof -
  from diff_range_total [OF assms(1)] obtain r1 r2
    where r1: "diff_local dw (remdups (keys dw)) = Inr r1" and r2: "diff_local dw order = Inr r2"
    unfolding diff_local_def by blast
  have "diff_at dw (remdups (keys dw)) k = diff_at dw order k" for k
    using assms by (intro diff_at_order) (auto simp: range_order_def)
  with r1 r2 have "missingFromSource r1 k = missingFromSource r2 k"
    "missingFromTarget r1 k = missingFromTarget r2 k" "diff r1 k = diff r2 k" for k
    by (simp_all add: diff_at_def)
  then have "r1 = r2" by (intro DiffMaps.equality) (auto simp: fun_eq_iff)
  with r1 r2 show ?thesis by simp
qed

lemma distinct_concat_disjoint:
  "distinct (concat kss) \<Longrightarrow> i < length kss \<Longrightarrow> j < length kss \<Longrightarrow> i \<noteq> j \<Longrightarrow>
   set (kss ! i) \<inter> set (kss ! j) = {}"
proof (induction kss arbitrary: i j)
  case Nil
  then show ?case by simp
next
  case (Cons ks kss)
  show ?case
  proof (cases i)
    case 0
    with Cons.prems obtain j' where j: "j = Suc j'" "j' < length kss" by (cases j) auto
    then have "set (kss ! j') \<subseteq> set (concat kss)" using nth_mem by fastforce
    with Cons.prems(1) 0 j show ?thesis by auto
  next
    case (Suc i')
    show ?thesis
    proof (cases j)
      case 0
      from Suc Cons.prems have "i' < length kss" by simp
      then have "set (kss ! i') \<subseteq> set (concat kss)" using nth_mem by fastforce
      with Cons.prems(1) 0 Suc show ?thesis by auto
    next
      case (Suc j')
      with \<open>i = Suc i'\<close> Cons.prems Cons.IH [of i' j'] show ?thesis by simp
    qed
  qed
qed

lemma distinct_concat_nth:
  "distinct (concat kss) \<Longrightarrow> i < length kss \<Longrightarrow> distinct (kss ! i)"
  by (induction kss arbitrary: i) (auto simp: nth_Cons split: nat.splits)

lemma count_list_distinct:
  "distinct xs \<Longrightarrow> count_list xs x = (if x \<in> set xs then 1 else 0)"
  by (induction xs) auto

lemma count_list_absent: "x \<notin> set xs \<Longrightarrow> count_list xs x = 0"
  by (induction xs) auto

lemma map_add_left_None: "m k = None \<Longrightarrow> (m ++ n) k = n k"
  by (simp add: map_add_def split: option.splits)

lemma map_add_right_None: "n k = None \<Longrightarrow> (m ++ n) k = m k"
  by (simp add: map_add_def)

lemma worker_inv_D:
  assumes "worker_inv w"
  shows "dom (sourceResults (snd w)) = dom (targetResults (snd w))"
    and "dom (sourceResults (snd w)) \<subseteq> covered w"
    and "dom (sourceResults (snd w)) \<subseteq> set (keys (snd w))"
proof -
  from assms show "dom (sourceResults (snd w)) = dom (targetResults (snd w))"
    and c: "dom (sourceResults (snd w)) \<subseteq> covered w"
    by (auto simp: worker_inv_def)
  have "covered w \<subseteq> set (keys (snd w))"
    by (auto simp: covered_def dest: in_set_takeD)
  with c show "dom (sourceResults (snd w)) \<subseteq> set (keys (snd w))" by blast
qed

lemma key_inv_I:
  assumes "0 < maxNumOfSendBatchRetry d"
    and "count_list (keysWithError d) k =
          (if k \<in> covered (ws ! w0) \<and> k \<notin> dom (sourceResults (snd (ws ! w0))) then 1 else 0)"
    and "fst (ws ! w0) = Finished \<Longrightarrow>
           diff_at (snd (ws ! w0)) (remdups (keys (snd (ws ! w0)))) k =
             Inr (missingFromSource d k, missingFromTarget d k, diff d k)"
    and "fst (ws ! w0) \<noteq> Finished \<Longrightarrow>
           missingFromSource d k = None \<and> missingFromTarget d k = None \<and> diff d k = None"
  shows "key_inv k w0 (ws, d)"
  using assms by (simp add: key_inv_def)

lemma key_inv_D:
  assumes "key_inv k w0 (ws, d)"
  shows "0 < maxNumOfSendBatchRetry d"
    and "count_list (keysWithError d) k =
          (if k \<in> covered (ws ! w0) \<and> k \<notin> dom (sourceResults (snd (ws ! w0))) then 1 else 0)"
    and "fst (ws ! w0) = Finished \<Longrightarrow>
           diff_at (snd (ws ! w0)) (remdups (keys (snd (ws ! w0)))) k =
             Inr (missingFromSource d k, missingFromTarget d k, diff d k)"
    and "fst (ws ! w0) \<noteq> Finished \<Longrightarrow>
           missingFromSource d k = None \<and> missingFromTarget d k = None \<and> diff d k = None"
  using assms by (simp_all add: key_inv_def)

text \<open>A turn of the loop of the worker that has the key.\<close>

lemma key_inv_own_batch:
  assumes ki: "key_inv k w0 (ws, d)" and w0: "w0 < length ws" and at: "ws ! w0 = (GetResults i, dw0)"
    and inv: "worker_inv (GetResults i, dw0)" and dist: "distinct (keys dw0)"
    and at': "at' \<noteq> Finished"
    and cov: "covered (at', dw') = covered (GetResults i, dw0) \<union> set sl"
    and sl: "distinct sl \<and> set sl \<inter> covered (GetResults i, dw0) = {}"
    and alt: "(errs = sl \<and> dw' = dw0 \<and> (sl \<noteq> [] \<longrightarrow> 0 < maxNumOfSendBatchRetry d)) \<or>
            (errs = [] \<and> dw' = dw0 \<and> maxNumOfSendBatchRetry d \<le> 0) \<or>
            (errs = [] \<and> (\<exists>b'. dw' = mergeResults b' dw0 \<and>
               dom (sourceResults b') = set sl \<and> dom (targetResults b') = set sl))"
  shows "key_inv k w0 (ws[w0 := (at', dw')], batch_accounted errs n d)"
proof (rule key_inv_I)
  note old = key_inv_D [OF ki]
  let ?cov = "covered (GetResults i, dw0)"
  from worker_inv_D(2) [OF inv] have sub: "dom (sourceResults dw0) \<subseteq> ?cov"
    by simp
  from w0 have new: "ws[w0 := (at', dw')] ! w0 = (at', dw')" by simp
  show "0 < maxNumOfSendBatchRetry (batch_accounted errs n d)"
    using old(1) by (simp add: batch_accounted_simps)
  from old(1) alt consider
    (failed) "errs = sl" "dw' = dw0"
    | (merged) b' where "errs = []" "dw' = mergeResults b' dw0" "dom (sourceResults b') = set sl"
    by fastforce
  then show "count_list (keysWithError (batch_accounted errs n d)) k =
      (if k \<in> covered (ws[w0 := (at', dw')] ! w0) \<and>
          k \<notin> dom (sourceResults (snd (ws[w0 := (at', dw')] ! w0))) then 1 else 0)"
  proof cases
    case failed
    show ?thesis
    proof (cases "k \<in> set sl")
      case True
      with sl sub have "k \<notin> ?cov" "k \<notin> dom (sourceResults dw0)" by auto
      with old(2) at True sl failed new cov show ?thesis
        by (simp add: batch_accounted_simps count_list_distinct)
    next
      case False
      with old(2) at failed new cov show ?thesis
        by (simp add: batch_accounted_simps count_list_absent)
    qed
  next
    case merged
    show ?thesis
    proof (cases "k \<in> set sl")
      case True
      with sl sub have "k \<notin> ?cov" by auto
      with old(2) at True merged new cov show ?thesis
        by (simp add: batch_accounted_simps mergeResults_doms)
    next
      case False
      with old(2) at merged new cov show ?thesis
        by (simp add: batch_accounted_simps mergeResults_doms)
    qed
  qed
  show "diff_at (snd (ws[w0 := (at', dw')] ! w0)) (remdups (keys (snd (ws[w0 := (at', dw')] ! w0)))) k =
      Inr (missingFromSource (batch_accounted errs n d) k,
           missingFromTarget (batch_accounted errs n d) k, diff (batch_accounted errs n d) k)"
    if "fst (ws[w0 := (at', dw')] ! w0) = Finished"
    using that at' by (simp add: new)
  show "missingFromSource (batch_accounted errs n d) k = None \<and>
      missingFromTarget (batch_accounted errs n d) k = None \<and> diff (batch_accounted errs n d) k = None"
    using old(4) at by (simp add: batch_accounted_simps)
qed

text \<open>A step of another worker that changes nothing about the key.\<close>

lemma key_inv_other:
  assumes "key_inv k w0 (ws, d)" and "w \<noteq> w0"
    and "maxNumOfSendBatchRetry d' = maxNumOfSendBatchRetry d"
    and "count_list (keysWithError d') k = count_list (keysWithError d) k"
    and "missingFromSource d' k = missingFromSource d k"
    and "missingFromTarget d' k = missingFromTarget d k"
    and "diff d' k = diff d k"
  shows "key_inv k w0 (ws[w := x], d')"
  using assms by (simp add: key_inv_def)

text \<open>The \<^verbatim>\<open>diff\<close> of the worker that has the key.\<close>

lemma key_inv_own_diff:
  assumes ki: "key_inv k w0 (ws, d)" and w0: "w0 < length ws" and at: "ws ! w0 = (Diff, dw0)"
    and l: "diff_local dw0 (remdups (keys dw0)) = Inr l"
  shows "key_inv k w0 (ws[w0 := (Finished, dw0)], addDiff l d)"
proof (rule key_inv_I)
  note old = key_inv_D [OF ki]
  from w0 have new: "ws[w0 := (Finished, dw0)] ! w0 = (Finished, dw0)" by simp
  show "0 < maxNumOfSendBatchRetry (addDiff l d)"
    using old(1) by (simp add: addDiff_simps)
  show "count_list (keysWithError (addDiff l d)) k =
      (if k \<in> covered (ws[w0 := (Finished, dw0)] ! w0) \<and>
          k \<notin> dom (sourceResults (snd (ws[w0 := (Finished, dw0)] ! w0))) then 1 else 0)"
    using old(2) at by (simp add: new addDiff_simps covered_simps)
  from old(4) at have none: "missingFromSource d k = None" "missingFromTarget d k = None"
    "diff d k = None"
    by simp_all
  show "diff_at (snd (ws[w0 := (Finished, dw0)] ! w0))
        (remdups (keys (snd (ws[w0 := (Finished, dw0)] ! w0)))) k =
      Inr (missingFromSource (addDiff l d) k, missingFromTarget (addDiff l d) k, diff (addDiff l d) k)"
    using l none by (simp add: new diff_at_def addDiff_simps map_add_left_None)
  show "missingFromSource (addDiff l d) k = None \<and>
      missingFromTarget (addDiff l d) k = None \<and> diff (addDiff l d) k = None"
    if "fst (ws[w0 := (Finished, dw0)] ! w0) \<noteq> Finished"
    using that by (simp add: new)
qed

text \<open>Every step of a run keeps what holds of the key.\<close>

lemma key_inv_step:
  assumes c: "counted_inv kss B p (ws, d)" and B: "0 < B" and w: "w < length ws"
    and dist: "distinct (concat kss)" and w0: "w0 < length kss" and k: "k \<in> set (kss ! w0)"
    and ki: "key_inv k w0 (ws, d)"
  shows "\<exists>at dw d'. worker_step (env w) (fst (ws ! w), snd (ws ! w), d) = Inr (at, dw, d') \<and>
           (counted_inv kss B p (ws[w := (at, dw)], d') \<and> key_inv k w0 (ws[w := (at, dw)], d'))"
proof -
  from counted_inv_step [OF c B w, of env] obtain at dw d'
    where step: "worker_step (env w) (fst (ws ! w), snd (ws ! w), d) = Inr (at, dw, d')"
      and c': "counted_inv kss B p (ws[w := (at, dw)], d')"
    by blast
  obtain at0 dw0 where ws_w: "ws ! w = (at0, dw0)" by (cases "ws ! w")
  from c have all: "list_all worker_inv ws" and ks: "map (\<lambda>w. keys (snd w)) ws = kss"
    and bs: "batchSize d = B"
    by (simp_all add: counted_inv_def)
  from ks have len: "length ws = length kss" by (metis length_map)
  from ks w ws_w have keys_w: "keys dw0 = kss ! w"
    by (metis nth_map snd_conv)
  from all w ws_w have winv: "worker_inv (at0, dw0)" by (metis list_all_length)
  from distinct_concat_nth [OF dist] w len keys_w have dist_w: "distinct (keys dw0)" by simp
  have other: "k \<notin> set (keys dw0)" if "w \<noteq> w0"
    using distinct_concat_disjoint [OF dist, of w w0] that w w0 len k keys_w by auto
  have "key_inv k w0 (ws[w := (at, dw)], d')"
  proof (cases at0)
    case (GetResults i)
    from winv GetResults have winv': "worker_inv (GetResults i, dw0)" by simp
    from B bs have B': "0 < batchSize d" by simp
    from getResults_step [OF winv' B', of "env w"]
    obtain at' dw' errs and sl :: "string list" where
      step': "worker_step (env w) (GetResults i, dw0, d) = Inr (at', dw', batch_accounted errs (length sl) d)"
      and fin: "at' \<noteq> Finished"
      and cov: "covered (at', dw') = covered (GetResults i, dw0) \<union> set sl"
      and sub: "set sl \<subseteq> set (keys dw0)"
      and dsl: "distinct (keys dw0) \<longrightarrow> distinct sl \<and> set sl \<inter> covered (GetResults i, dw0) = {}"
      and alt: "(errs = sl \<and> dw' = dw0 \<and> (sl \<noteq> [] \<longrightarrow> 0 < maxNumOfSendBatchRetry d)) \<or>
            (errs = [] \<and> dw' = dw0 \<and> maxNumOfSendBatchRetry d \<le> 0) \<or>
            (errs = [] \<and> (\<exists>b'. dw' = mergeResults b' dw0 \<and>
               dom (sourceResults b') = set sl \<and> dom (targetResults b') = set sl))"
      by blast
    from step step' ws_w GetResults have eq: "at = at'" "dw = dw'"
      "d' = batch_accounted errs (length sl) d"
      by simp_all
    show ?thesis
    proof (cases "w = w0")
      case True
      from ws_w GetResults True have at_w0: "ws ! w0 = (GetResults i, dw0)" by simp
      from w True have "w0 < length ws" by simp
      from key_inv_own_batch [OF ki this at_w0 winv' dist_w fin cov dsl [rule_format, OF dist_w] alt]
      show ?thesis by (simp add: eq True)
    next
      case False
      from alt have "set errs \<subseteq> set sl" by auto
      with sub other [OF False] have "k \<notin> set errs" by blast
      then have "count_list (keysWithError d') k = count_list (keysWithError d) k"
        by (simp add: eq batch_accounted_simps count_list_absent)
      with key_inv_other [OF ki False, of d'] show ?thesis
        by (simp add: eq batch_accounted_simps)
    qed
  next
    case Diff
    from winv Diff have winv': "worker_inv (Diff, dw0)" by simp
    from diff_step [OF winv', of "env w" d] obtain l
      where l: "diff_local dw0 (remdups (keys dw0)) = Inr l"
        and step': "worker_step (env w) (Diff, dw0, d) = Inr (Finished, dw0, addDiff l d)"
      by blast
    from step step' ws_w Diff have eq: "at = Finished" "dw = dw0" "d' = addDiff l d"
      by simp_all
    show ?thesis
    proof (cases "w = w0")
      case True
      from ws_w Diff True have at_w0: "ws ! w0 = (Diff, dw0)" by simp
      from w True have "w0 < length ws" by simp
      from key_inv_own_diff [OF ki this at_w0 l] show ?thesis by (simp add: eq True)
    next
      case False
      from worker_inv_D(3) [OF winv'] other [OF False] have "sourceResults dw0 k = None"
        by auto
      with diff_local_doms [OF l] have "missingFromSource l k = None" "missingFromTarget l k = None"
        "diff l k = None"
        by (auto simp: dom_def)
      with key_inv_other [OF ki False, of d'] show ?thesis
        by (simp add: eq addDiff_simps map_add_right_None)
    qed
  next
    case Finished
    with step ws_w have eq: "at = Finished" "dw = dw0" "d' = d" by (simp_all add: finished_step)
    with ws_w Finished w have "ws[w := (at, dw)] = ws" by (metis list_update_id)
    with ki eq show ?thesis by simp
  qed
  with step c' show ?thesis by blast
qed

lemma example_twice_launch:
  "launch [''a'', ''a''] [(0, 1), (1, 2)] [0..<nat (numberOfWorkers (NewMutationDiffer 2 1 1))] =
     Inr [NewDifferWorker [''a''], NewDifferWorker [''a'']]"
proof -
  have "[0..<nat 2] = [0, 1]" by (simp add: upt_rec)
  then show ?thesis
    by (simp add: NewMutationDiffer_def go_slice_def)
qed

lemma example_twice_outcome:
  "key_outcome example_twice_env [0, 1, 0, 1] [''a'', ''a''] [(0, 1), (1, 2)]
     (NewMutationDiffer 2 1 1) ''a'' = Some (2, False, False)"
  by (simp add: key_outcome_def Run_workers_def example_twice_launch)
    (simp add: NewMutationDiffer_def example_twice_env_def
      NewDifferWorker_def go_slice_def worker_step_def getResults_iteration_def
      sendBatchWithRetry_def sendBatchFunc_def batch_at_merge_def NewBatch_def send_def mergeResults_def
      addKeysWithError_def DifferWorker_diff_def diff_local_def diff_iteration_def
      DiffMaps_empty_def addDiff_def isKeyNotFoundError_def KeyNotFoundErrMsg_def Let_def
      recorded_def matched_def skipped_def areGetResultsTheSame_def)

lemma example_race_launch:
  "launch [''a'', ''b''] [(0, 2)] [0..<nat (numberOfWorkers (NewMutationDiffer 1 2 1))] =
     Inr [NewDifferWorker [''a'', ''b'']]"
  by (simp add: NewMutationDiffer_def go_slice_def)

lemma example_race_outcome:
  "key_outcome example_race_env [0, 0] [''a'', ''b''] [(0, 2)]
     (NewMutationDiffer 1 2 1) ''a'' = Some (0, False, True)"
  by (simp add: key_outcome_def Run_workers_def example_race_launch)
    (simp add: NewMutationDiffer_def example_race_env_def example_race_def
      NewDifferWorker_def go_slice_def worker_step_def getResults_iteration_def
      sendBatchWithRetry_def sendBatchFunc_def batch_at_merge_def NewBatch_def send_def mergeResults_def
      addKeysWithError_def DifferWorker_diff_def diff_local_def diff_iteration_def
      DiffMaps_empty_def addDiff_def isKeyNotFoundError_def KeyNotFoundErrMsg_def Let_def
      recorded_def matched_def skipped_def areGetResultsTheSame_def GetResult_zero_def example_doc_def)

lemma key_inv_init:
  assumes "0 < maxNumOfSendBatchRetry d" and "keysWithError d = []"
    and "missingFromSource d k = None" and "missingFromTarget d k = None" and "diff d k = None"
    and "w0 < length dws"
  shows "key_inv k w0 (map (\<lambda>dw. (GetResults 0, dw)) dws, d)"
  using assms by (simp add: key_inv_def covered_simps)

text \<open>Only the worker that has the key among its keys holds results for it.\<close>

lemma holder_unique:
  assumes c: "counted_inv kss B p (ws, d)" and dist: "distinct (concat kss)"
    and w0: "w0 < length kss" and k: "k \<in> set (kss ! w0)"
    and w: "w \<in> set ws" and e: "sourceResults (snd w) k \<noteq> None"
  shows "w = ws ! w0"
proof -
  from c have all: "list_all worker_inv ws" and ks: "map (\<lambda>w. keys (snd w)) ws = kss"
    by (simp_all add: counted_inv_def)
  from ks have len: "length ws = length kss" by (metis length_map)
  from w obtain i where i: "i < length ws" "w = ws ! i" by (metis in_set_conv_nth)
  from all i have "worker_inv w" by (metis list_all_length)
  from worker_inv_D(3) [OF this] e have "k \<in> set (keys (snd w))" by auto
  moreover from ks i have "keys (snd w) = kss ! i" by (metis nth_map)
  ultimately have "k \<in> set (kss ! i)" by simp
  with k distinct_concat_disjoint [OF dist, of i w0] i len w0 have "i = w0" by auto
  with i show ?thesis by simp
qed

lemma final_outcome:
  assumes c: "counted_inv kss B p (ws, d')" and ki: "key_inv k w0 (ws, d')"
    and fin: "list_all (\<lambda>w. fst w = Finished) ws" and dist: "distinct (concat kss)"
    and w0: "w0 < length kss" and k: "k \<in> set (kss ! w0)"
  shows "(recorded d' k, matched ws k, skipped ws k) \<in>
           {(1, False, False), (0, True, False), (0, False, True)}"
proof -
  from c have all: "list_all worker_inv ws" and ks: "map (\<lambda>w. keys (snd w)) ws = kss"
    by (simp_all add: counted_inv_def)
  from ks have len: "length ws = length kss" by (metis length_map)
  obtain at0 dw0 where ws0: "ws ! w0 = (at0, dw0)" by (cases "ws ! w0")
  from w0 len have mem: "ws ! w0 \<in> set ws" by simp
  from fin mem ws0 have at0: "at0 = Finished" by (auto simp: list_all_iff)
  from ks w0 len ws0 have keys0: "keys dw0 = kss ! w0" by (metis nth_map snd_conv)
  from all w0 len ws0 have winv: "worker_inv (Finished, dw0)"
    unfolding at0 [symmetric] by (metis list_all_length)
  from worker_inv_D(1) [OF winv] have doms: "dom (sourceResults dw0) = dom (targetResults dw0)"
    by simp
  then have sub: "dom (sourceResults dw0) \<subseteq> dom (targetResults dw0)" by simp
  note kd = key_inv_D [OF ki]
  from kd(2) ws0 at0 keys0 k
  have count: "count_list (keysWithError d') k = (if k \<notin> dom (sourceResults dw0) then 1 else 0)"
    by (simp add: covered_simps)
  from kd(3) ws0 at0
  have maps: "diff_at dw0 (remdups (keys dw0)) k =
      Inr (missingFromSource d' k, missingFromTarget d' k, diff d' k)"
    by simp
  let ?M = "\<lambda>w. case (sourceResults (snd w) k, targetResults (snd w) k) of
                     (Some sr, Some tr) \<Rightarrow>
                       Key sr \<noteq> [] \<and> Key tr \<noteq> [] \<and>
                       isKeyNotFoundError (Error sr) = isKeyNotFoundError (Error tr) \<and>
                       areGetResultsTheSame (Result sr) (Result tr)
                   | _ \<Rightarrow> False"
  let ?S = "\<lambda>w. case (sourceResults (snd w) k, targetResults (snd w) k) of
                     (Some sr, Some tr) \<Rightarrow> Key sr = [] \<or> Key tr = []
                   | _ \<Rightarrow> False"
  have only: "w = ws ! w0" if "w \<in> set ws" "sourceResults (snd w) k \<noteq> None" for w
    using holder_unique [OF c dist w0 k that] .
  have m: "matched ws k \<longleftrightarrow> ?M (ws ! w0)"
  proof
    assume "matched ws k"
    then obtain w where w: "w \<in> set ws" "?M w" by (auto simp: matched_def list_ex_iff)
    then have "sourceResults (snd w) k \<noteq> None" by (auto split: option.splits)
    with only w show "?M (ws ! w0)" by blast
  next
    assume "?M (ws ! w0)"
    with mem show "matched ws k" unfolding matched_def list_ex_iff by blast
  qed
  have s: "skipped ws k \<longleftrightarrow> ?S (ws ! w0)"
  proof
    assume "skipped ws k"
    then obtain w where w: "w \<in> set ws" "?S w" by (auto simp: skipped_def list_ex_iff)
    then have "sourceResults (snd w) k \<noteq> None" by (auto split: option.splits)
    with only w show "?S (ws ! w0)" by blast
  next
    assume "?S (ws ! w0)"
    with mem show "skipped ws k" unfolding skipped_def list_ex_iff by blast
  qed
  show ?thesis
  proof (cases "sourceResults dw0 k")
    case None
    from diff_at_no_entry [OF sub None] maps
    have "missingFromSource d' k = None" "missingFromTarget d' k = None" "diff d' k = None"
      by simp_all
    with count None have "recorded d' k = 1" by (simp add: recorded_def dom_def)
    moreover from None have "\<not> matched ws k" "\<not> skipped ws k" by (simp_all add: m s ws0)
    ultimately show ?thesis by simp
  next
    case (Some sr)
    with doms obtain tr where tr: "targetResults dw0 k = Some tr" by blast
    from k keys0 have "k \<in> set (remdups (keys dw0))" by simp
    from diff_at_visited [OF distinct_remdups this sub Some tr] maps
    have mfs: "missingFromSource d' k =
        (if Key sr \<noteq> [] \<and> Key tr \<noteq> [] \<and> isKeyNotFoundError (Error sr) \<and> \<not> isKeyNotFoundError (Error tr)
         then Some (Result tr) else None)"
      and mft: "missingFromTarget d' k =
        (if Key sr \<noteq> [] \<and> Key tr \<noteq> [] \<and> \<not> isKeyNotFoundError (Error sr) \<and> isKeyNotFoundError (Error tr)
         then Some (Result sr) else None)"
      and df: "diff d' k =
        (if Key sr \<noteq> [] \<and> Key tr \<noteq> [] \<and> isKeyNotFoundError (Error sr) = isKeyNotFoundError (Error tr) \<and>
            \<not> areGetResultsTheSame (Result sr) (Result tr)
         then Some [Result sr, Result tr] else None)"
      by simp_all
    from count Some have c0: "count_list (keysWithError d') k = 0" by (simp add: dom_def)
    have mm: "matched ws k \<longleftrightarrow> Key sr \<noteq> [] \<and> Key tr \<noteq> [] \<and>
        isKeyNotFoundError (Error sr) = isKeyNotFoundError (Error tr) \<and>
        areGetResultsTheSame (Result sr) (Result tr)"
      by (simp add: m ws0 Some tr)
    have ss: "skipped ws k \<longleftrightarrow> Key sr = [] \<or> Key tr = []"
      by (simp add: s ws0 Some tr)
    show ?thesis
      unfolding recorded_def mm ss c0 by (auto simp: dom_def mfs mft df)
  qed
qed

lemma NewMutationDiffer_simps:
  "numberOfWorkers (NewMutationDiffer workers bsize retries) = workers"
  "batchSize (NewMutationDiffer workers bsize retries) = bsize"
  "maxNumOfSendBatchRetry (NewMutationDiffer workers bsize retries) = retries"
  "keysWithError (NewMutationDiffer workers bsize retries) = []"
  "numKeysProcessed (NewMutationDiffer workers bsize retries) = 0"
  "numKeysWithErrors (NewMutationDiffer workers bsize retries) = 0"
  "missingFromSource (NewMutationDiffer workers bsize retries) = Map.empty"
  "missingFromTarget (NewMutationDiffer workers bsize retries) = Map.empty"
  "diff (NewMutationDiffer workers bsize retries) = Map.empty"
  by (simp_all add: NewMutationDiffer_def)

text \<open>
  Claim C1, amended. Let the candidate keys be pairwise distinct, the batch size and the
  number of attempts positive, and the ranges of \<^verbatim>\<open>utils.BalanceLoad\<close> make up the key
  list. Whatever the store client does and however the steps of the workers interleave,
  when all workers have finished every candidate key is in exactly one of three cases: it is
  recorded in exactly one place (once in \<^verbatim>\<open>keysWithError\<close>, or in one of
  \<^verbatim>\<open>missingFromSource\<close>, \<^verbatim>\<open>missingFromTarget\<close> and \<^verbatim>\<open>diff\<close>); or it is recorded nowhere
  and was compared and found to match; or it is recorded nowhere and was skipped by
  \<^verbatim>\<open>diff\<close>, because one of its two merged results still was the empty placeholder.
\<close>

theorem C1_distinct_key_ends_in_one_place:
  assumes "BalanceLoad_contract workers (int (length diffKeys)) loadDistribution"
    and "0 < bsize" and "0 < retries" and "distinct diffKeys" and "k \<in> set diffKeys"
  shows "key_outcome env schedule diffKeys loadDistribution (NewMutationDiffer workers bsize retries) k \<in>
           {None, Some (1, False, False), Some (0, True, False), Some (0, False, True)}"
proof -
  let ?d = "NewMutationDiffer workers bsize retries"
  from assms(1) have "BalanceLoad_contract (numberOfWorkers ?d) (int (length diffKeys)) loadDistribution"
    by (simp add: NewMutationDiffer_simps)
  from launch_contract [OF this] obtain dws
    where l: "launch diffKeys loadDistribution [0..<nat (numberOfWorkers ?d)] = Inr dws"
      and cat: "concat (map keys dws) = diffKeys"
      and e: "list_all (\<lambda>dw. sourceResults dw = Map.empty \<and> targetResults dw = Map.empty) dws"
    by blast
  let ?kss = "map keys dws"
  from assms(5) cat have "k \<in> set (concat ?kss)" by simp
  then obtain ks where "ks \<in> set ?kss" "k \<in> set ks" unfolding set_concat by blast
  then obtain w0 where w0: "w0 < length ?kss" and k: "k \<in> set (?kss ! w0)"
    by (metis in_set_conv_nth)
  from assms(4) cat have dist: "distinct (concat ?kss)" by simp
  let ?P = "\<lambda>s. counted_inv ?kss bsize 0 s \<and> key_inv k w0 s"
  have "\<exists>ws d'. run_workers env schedule (map (\<lambda>dw. (GetResults 0, dw)) dws, ?d) = Inr (ws, d') \<and>
      ?P (ws, d')"
  proof (rule run_workers_invariant)
    have "counted_inv ?kss (batchSize ?d) (numKeysProcessed ?d) (map (\<lambda>dw. (GetResults 0, dw)) dws, ?d)"
      by (rule counted_inv_init [OF e])
    moreover have "key_inv k w0 (map (\<lambda>dw. (GetResults 0, dw)) dws, ?d)"
      using assms(3) w0 by (intro key_inv_init) (simp_all add: NewMutationDiffer_simps)
    ultimately show "?P (map (\<lambda>dw. (GetResults 0, dw)) dws, ?d)"
      by (simp add: NewMutationDiffer_simps)
  next
    fix ws d0 w
    assume "?P (ws, d0)" and w: "w < length ws"
    then have c: "counted_inv ?kss bsize 0 (ws, d0)" and ki: "key_inv k w0 (ws, d0)" by simp_all
    show "\<exists>at dw d'. worker_step (env w) (fst (ws ! w), snd (ws ! w), d0) = Inr (at, dw, d') \<and>
        ?P (ws[w := (at, dw)], d')"
      by (rule key_inv_step [OF c assms(2) w dist w0 k ki])
  qed
  then obtain ws d' where r: "run_workers env schedule (map (\<lambda>dw. (GetResults 0, dw)) dws, ?d) = Inr (ws, d')"
    and c: "counted_inv ?kss bsize 0 (ws, d')" and ki: "key_inv k w0 (ws, d')"
    by blast
  show ?thesis
  proof (cases "list_all (\<lambda>w. fst w = Finished) ws")
    case False
    with l r show ?thesis by (simp add: key_outcome_def Run_workers_def)
  next
    case True
    with l r have "key_outcome env schedule diffKeys loadDistribution ?d k =
        Some (recorded d' k, matched ws k, skipped ws k)"
      by (simp add: key_outcome_def Run_workers_def)
    with final_outcome [OF c ki True dist w0 k] show ?thesis by auto
  qed
qed

lemma example_outcome:
  "key_outcome example_env [0, 1, 1, 0] example_candidates [(0, 2), (2, 3)]
     (NewMutationDiffer 2 2 1) ''c'' = Some (1, False, False)"
  by (simp add: key_outcome_def Run_workers_def example_launch)
    (simp add: NewMutationDiffer_def example_env_def
      NewDifferWorker_def go_slice_def worker_step_def getResults_iteration_def
      sendBatchWithRetry_def sendBatchFunc_def batch_at_merge_def NewBatch_def send_def mergeResults_def
      addKeysWithError_def DifferWorker_diff_def diff_local_def diff_iteration_def
      DiffMaps_empty_def addDiff_def isKeyNotFoundError_def KeyNotFoundErrMsg_def Let_def
      recorded_def matched_def skipped_def areGetResultsTheSame_def)

theorem C1_distinct_key_ends_in_one_place_witness:
  "key_outcome example_env [0, 1, 1, 0] example_candidates [(0, 2), (2, 3)]
     (NewMutationDiffer 2 2 1) ''c'' = Some (1, False, False) \<and>
   key_outcome example_env [0, 1, 1, 0] example_candidates [(0, 2), (2, 3)]
     (NewMutationDiffer 2 2 1) ''c'' \<in>
       {None, Some (1, False, False), Some (0, True, False), Some (0, False, True)}"
proof -
  have "BalanceLoad_contract 2 (int (length example_candidates)) [(0, 2), (2, 3)]"
    by (simp add: BalanceLoad_contract_def example_candidates_def)
  moreover have "distinct example_candidates" "''c'' \<in> set example_candidates"
    by (simp_all add: example_candidates_def)
  ultimately have "key_outcome example_env [0, 1, 1, 0] example_candidates [(0, 2), (2, 3)]
     (NewMutationDiffer 2 2 1) ''c'' \<in>
       {None, Some (1, False, False), Some (0, True, False), Some (0, False, True)}"
    by (intro C1_distinct_key_ends_in_one_place) simp_all
  with example_outcome show ?thesis by blast
qed

text \<open>
  Claim C1 says that every candidate key ends up in exactly one of the three maps, the keys
  with error, or is dropped as a match. Two runs in which it does not. In the first the key
  list holds the key \<open>a\<close> twice, once for each of two workers: the first worker's batch times
  out and the second worker finds the key on the target only, so that \<open>a\<close> is among the keys
  with error and in \<^verbatim>\<open>missingFromSource\<close>. In the second run a batch of two keys succeeds
  while, on the source, the callback of \<open>a\<close> has counted itself and not yet stored its
  result: the merged source result of \<open>a\<close> is the empty placeholder, \<^verbatim>\<open>diff\<close> skips the key,
  and \<open>a\<close>, whose two documents differ, is recorded nowhere and has not been matched.
\<close>

theorem C1_twice_or_nowhere_counterexample:
  "key_outcome example_twice_env [0, 1, 0, 1] [''a'', ''a''] [(0, 1), (1, 2)]
     (NewMutationDiffer 2 1 1) ''a'' = Some (2, False, False) \<and>
   key_outcome example_race_env [0, 0] [''a'', ''b''] [(0, 2)]
     (NewMutationDiffer 1 2 1) ''a'' = Some (0, False, True)"
  using example_twice_outcome example_race_outcome by simp










lemma resultCount_simps:
  "resultCount side (b\<lparr>sourceResultCount := x\<rparr>) = (if side then x else resultCount side b)"
  "resultCount side (b\<lparr>targetResultCount := x\<rparr>) = (if side then resultCount side b else x)"
  by (simp_all add: resultCount_def)



















lemma leave_results:
  assumes "run (side, i) = Some (c, result, err)"
    and "getCallbackFunc (Leave side i) (b, run) = (b', run')"
  shows "resultsMap side b' =
           (resultsMap side b)(keys b ! i \<mapsto> \<lparr>Key = keys b ! i, Result = result, Error = err\<rparr>)"
    and "resultsMap (\<not> side) b' = resultsMap (\<not> side) b"
  using assms by (auto simp: resultsMap_def Let_def split: if_splits)




lemma getCallbackFunc_entries:
  "resultsMap side (fst (getCallbackFunc step s)) key = resultsMap side (fst s) key \<or>
   populated side (fst (getCallbackFunc step s)) key"
proof (cases s)
  case (Pair b run)
  show ?thesis
  proof (cases step)
    case (Enter sd i result err)
    with Pair show ?thesis by (simp add: resultsMap_def)
  next
    case (Leave sd i)
    show ?thesis
    proof (cases "run (sd, i)")
      case None
      with Pair Leave show ?thesis by simp
    next
      case (Some t)
      obtain c result err where t: "t = (c, result, err)" by (cases t)
      obtain b' run' where eq: "getCallbackFunc (Leave sd i) (b, run) = (b', run')"
        by (cases "getCallbackFunc (Leave sd i) (b, run)")
      from Some t have running: "run (sd, i) = Some (c, result, err)" by simp
      note res = leave_results [OF running eq]
      have "resultsMap side b' key = resultsMap side b key \<or> populated side b' key"
      proof (cases "side = sd")
        case True
        with res(1) show ?thesis by (simp add: populated_def)
      next
        case False
        then have "side = (\<not> sd)" by auto
        with res(2) show ?thesis by simp
      qed
      with Pair Leave eq show ?thesis by simp
    qed
  next
    case Signal
    with Pair show ?thesis by simp
  qed
qed

lemma getCallbackFunc_populated:
  assumes "populated side (fst s) key"
  shows "populated side (fst (getCallbackFunc step s)) key"
  using getCallbackFunc_entries [of side step s key] assms
  by (auto simp: populated_def)















text \<open>
  A run can finish, whatever the store client does: while a worker has not finished, a
  step of it brings it nearer to its end, so that there is a schedule after which all
  workers have finished and the wait of \<^verbatim>\<open>Run\<close> returns.
\<close>

lemma steps_left_simps:
  "steps_left (GetResults i, dw) = nat (int (length (keys dw)) - i) + 2"
  "steps_left (Diff, dw) = 1"
  "steps_left (Finished, dw) = 0"
  by (simp_all add: steps_left_def)

lemma worker_step_pc:
  assumes "worker_step env (at, dw, d) = Inr (at', dw', d')"
  shows "case at of
           GetResults i \<Rightarrow>
             at' = Diff \<or> (at' = GetResults (i + batchSize d) \<and> i + batchSize d < int (length (keys dw)))
         | Diff \<Rightarrow> at' = Finished
         | Finished \<Rightarrow> at' = Finished"
proof (cases at)
  case (GetResults i)
  with assms show ?thesis
    by (auto simp: worker_step_def getResults_iteration_def split: if_splits sum.splits option.splits)
next
  case Diff
  with assms show ?thesis
    by (auto simp: worker_step_def split: sum.splits)
next
  case Finished
  with assms show ?thesis by (simp add: worker_step_def)
qed

lemma sum_list_update_less:
  "w < length ws \<Longrightarrow> f x < f (ws ! w) \<Longrightarrow>
   sum_list (map f (ws[w := x])) < (sum_list (map f ws) :: nat)"
proof (induction ws arbitrary: w)
  case Nil
  then show ?case by simp
next
  case (Cons a ws)
  then show ?case by (cases w) simp_all
qed

lemma steps_left_step:
  assumes "worker_step env (at, dw, d) = Inr (at', dw', d')"
    and "at \<noteq> Finished" and "0 < batchSize d" and "keys dw' = keys dw"
  shows "steps_left (at', dw') < steps_left (at, dw)"
proof (cases at)
  case (GetResults i)
  with worker_step_pc [OF assms(1)] assms(3,4) show ?thesis
    by (auto simp: steps_left_simps)
next
  case Diff
  with worker_step_pc [OF assms(1)] show ?thesis by (simp add: steps_left_simps)
next
  case Finished
  with assms(2) show ?thesis by simp
qed

lemma run_workers_can_finish:
  assumes "counted_inv kss B p (ws, d)" and "0 < B"
  shows "\<exists>schedule ws' d'. run_workers env schedule (ws, d) = Inr (ws', d') \<and>
           list_all (\<lambda>w. fst w = Finished) ws'"
  using assms(1)
proof (induction "sum_list (map steps_left ws)" arbitrary: ws d rule: less_induct)
  case less
  show ?case
  proof (cases "list_all (\<lambda>w. fst w = Finished) ws")
    case True
    then have "run_workers env [] (ws, d) = Inr (ws, d) \<and> list_all (\<lambda>w. fst w = Finished) ws"
      by simp
    then show ?thesis by blast
  next
    case False
    then obtain w where w: "w < length ws" and unfinished: "fst (ws ! w) \<noteq> Finished"
      by (auto simp: list_all_length)
    from counted_inv_step [OF less.prems assms(2) w, of env] obtain at dw d'
      where step: "worker_step (env w) (fst (ws ! w), snd (ws ! w), d) = Inr (at, dw, d')"
        and inv: "counted_inv kss B p (ws[w := (at, dw)], d')"
      by blast
    from less.prems have ks: "map (\<lambda>w. keys (snd w)) ws = kss" and bs: "batchSize d = B"
      by (simp_all add: counted_inv_def)
    from inv have "map (\<lambda>w. keys (snd w)) (ws[w := (at, dw)]) = kss"
      by (simp add: counted_inv_def)
    with ks have "map (\<lambda>w. keys (snd w)) (ws[w := (at, dw)]) ! w = map (\<lambda>w. keys (snd w)) ws ! w"
      by simp
    with w have keys: "keys dw = keys (snd (ws ! w))" by simp
    from steps_left_step [OF step unfinished _ keys] bs assms(2)
    have "steps_left (at, dw) < steps_left (fst (ws ! w), snd (ws ! w))" by simp
    then have "steps_left (at, dw) < steps_left (ws ! w)" by simp
    with w have "sum_list (map steps_left (ws[w := (at, dw)])) < sum_list (map steps_left ws)"
      by (rule sum_list_update_less)
    from less.hyps [OF this inv] obtain schedule ws' d''
      where run: "run_workers env schedule (ws[w := (at, dw)], d') = Inr (ws', d'')"
        and fin: "list_all (\<lambda>w. fst w = Finished) ws'"
      by blast
    from run w step have "run_workers env (w # schedule) (ws, d) = Inr (ws', d'')" by simp
    with fin show ?thesis by blast
  qed
qed

lemma Run_workers_can_finish:
  assumes "BalanceLoad_contract (numberOfWorkers d) (int (length diffKeys)) loadDistribution"
    and "0 < batchSize d"
  shows "\<exists>schedule ws d'. Run_workers env schedule diffKeys loadDistribution d = Some (Inr (ws, d'))"
proof -
  from launch_contract [OF assms(1)] obtain dws
    where l: "launch diffKeys loadDistribution [0..<nat (numberOfWorkers d)] = Inr dws"
      and e: "list_all (\<lambda>dw. sourceResults dw = Map.empty \<and> targetResults dw = Map.empty) dws"
    by blast
  from run_workers_can_finish [OF counted_inv_init [OF e] assms(2), of env] obtain schedule ws d'
    where "run_workers env schedule (map (\<lambda>dw. (GetResults 0, dw)) dws, d) = Inr (ws, d')"
      and "list_all (\<lambda>w. fst w = Finished) ws"
    by blast
  with l have "Run_workers env schedule diffKeys loadDistribution d = Some (Inr (ws, d'))"
    by (simp add: Run_workers_def)
  then show ?thesis by blast
qed

end
